theory Spec2Isabelle
  imports Main
begin

section \<open>Strings\<close>

text \<open>
  Python strings are modelled as \<open>string\<close>; a character is read as a code point below
  256.  On that range \<open>str.isspace\<close> holds for the code points listed in \<open>isspace\<close>,
  the regular expression class \<open>\d\<close> and \<open>int()\<close> accept exactly the ten ASCII digits,
  and \<open>str.lower\<close> maps \<open>A\<close>-\<open>Z\<close> and the capital letters of the upper half
  (\<open>0xC0\<close>-\<open>0xDE\<close> without \<open>0xD7\<close>) to the character 32 places further on.
\<close>

definition isspace :: "char \<Rightarrow> bool" where
  "isspace c = (of_char c \<in> set [9, 10, 11, 12, 13, 28, 29, 30, 31, 32, 133, 160 :: nat])"

definition isdigit :: "char \<Rightarrow> bool" where
  "isdigit c = (c \<in> set ''0123456789'')"

text \<open>\<open>s.strip()\<close>: whitespace removed at both ends.\<close>

definition strip :: "string \<Rightarrow> string" where
  "strip s = rev (dropWhile isspace (rev (dropWhile isspace s)))"

text \<open>\<open>str(n)\<close> of a non-negative integer: its decimal digits, no leading zero.\<close>

definition digit_char :: "nat \<Rightarrow> char" where
  "digit_char d = ''0123456789'' ! d"

fun str_nat :: "nat \<Rightarrow> string" where
  "str_nat n = (if n < 10 then [digit_char n] else str_nat (n div 10) @ [digit_char (n mod 10)])"

declare str_nat.simps [simp del]

text \<open>\<open>int(ds)\<close> of a string of decimal digits (leading zeros allowed, no bound on the size).\<close>

definition int_str :: "string \<Rightarrow> nat" where
  "int_str ds = foldl (\<lambda>acc c. 10 * acc + (of_char c - 48)) 0 ds"

section \<open>Version\<close>

datatype error = ValueError string | RuntimeError string | TransportError string

record Version =
  major :: nat
  minor :: nat
  patch :: nat
  original :: string

text \<open>
  \<open>re.sub(r'-h\d+$', '', s)\<close>.  The pattern is anchored at the end, so at most one place
  matches: the one where \<open>-h\<close> is followed by one or more digits and nothing else.  (The
  argument is always a stripped string, which has no final newline for \<open>$\<close> to step over.)
\<close>

fun hotfix_here :: "string \<Rightarrow> bool" where
  "hotfix_here (a # b # ds) = (a = CHR ''-'' \<and> b = CHR ''h'' \<and> ds \<noteq> [] \<and> list_all isdigit ds)"
| "hotfix_here _ = False"

fun sub_hotfix :: "string \<Rightarrow> string" where
  "sub_hotfix [] = []"
| "sub_hotfix (c # cs) = (if hotfix_here (c # cs) then [] else c # sub_hotfix cs)"

text \<open>
  \<open>re.match(r'^(\d+)\.(\d+)\.(\d+)', s)\<close>: three greedy runs of digits separated by
  dots at the start of \<open>s\<close>; the result is the three groups, or \<open>None\<close>.
\<close>

definition match_version :: "string \<Rightarrow> (string \<times> string \<times> string) option" where
  "match_version s =
     (let g1 = takeWhile isdigit s; r1 = dropWhile isdigit s in
      if g1 = [] then None else
      case r1 of
        [] \<Rightarrow> None
      | d1 # s2 \<Rightarrow>
          if d1 \<noteq> CHR ''.'' then None else
          let g2 = takeWhile isdigit s2; r2 = dropWhile isdigit s2 in
          if g2 = [] then None else
          case r2 of
            [] \<Rightarrow> None
          | d2 # s3 \<Rightarrow>
              if d2 \<noteq> CHR ''.'' then None else
              let g3 = takeWhile isdigit s3 in
              if g3 = [] then None else Some (g1, g2, g3))"

definition parse :: "string \<Rightarrow> error + Version" where
  "parse version_str =
     (let clean_version = sub_hotfix (strip version_str) in
      case match_version clean_version of
        None \<Rightarrow> Inl (ValueError (''Invalid version format: '' @ version_str))
      | Some (g1, g2, g3) \<Rightarrow>
          Inr \<lparr>major = int_str g1, minor = int_str g2, patch = int_str g3,
               original = strip version_str\<rparr>)"

definition str_version :: "Version \<Rightarrow> string" where
  "str_version v = str_nat (major v) @ ''.'' @ str_nat (minor v) @ ''.'' @ str_nat (patch v)"

definition major_minor :: "Version \<Rightarrow> string" where
  "major_minor v = str_nat (major v) @ ''.'' @ str_nat (minor v)"

definition base_version :: "Version \<Rightarrow> string" where
  "base_version v = str_nat (major v) @ ''.'' @ str_nat (minor v) @ ''.0''"

text \<open>The comparisons of the class: Python's order on the tuples (major, minor, patch).\<close>

definition version_lt :: "Version \<Rightarrow> Version \<Rightarrow> bool" where
  "version_lt a b =
     (major a < major b \<or> (major a = major b \<and>
        (minor a < minor b \<or> (minor a = minor b \<and> patch a < patch b))))"

definition version_eq :: "Version \<Rightarrow> Version \<Rightarrow> bool" where
  "version_eq a b = (major a = major b \<and> minor a = minor b \<and> patch a = patch b)"

definition version_le :: "Version \<Rightarrow> Version \<Rightarrow> bool" where
  "version_le a b = (version_lt a b \<or> version_eq a b)"

definition version_ge :: "Version \<Rightarrow> Version \<Rightarrow> bool" where
  "version_ge a b = (version_lt b a \<or> version_eq a b)"

section \<open>The upgrade path\<close>

definition UPGRADE_PATHS :: "string \<rightharpoonup> string" where
  "UPGRADE_PATHS = map_of
     [(''9.0'', ''9.1.0''),
      (''9.1'', ''10.0.0''),
      (''10.0'', ''10.1.0''),
      (''10.1'', ''10.2.0''),
      (''10.2'', ''11.0.0''),
      (''11.0'', ''11.1.0''),
      (''11.1'', ''11.2.0''),
      (''11.2'', ''12.1.2'')]"

subsection \<open>Decimal strings and map keys\<close>

lemma digit_char_isdigit: "d < 10 \<Longrightarrow> isdigit (digit_char d)"
proof -
  assume "d < 10"
  then have "d \<in> {0,1,2,3,4,5,6,7,8,9}" by auto
  then show ?thesis by (auto simp: digit_char_def isdigit_def)
qed

lemma digit_char_val: "d < 10 \<Longrightarrow> of_char (digit_char d) - 48 = d"
proof -
  assume "d < 10"
  then have "d \<in> {0,1,2,3,4,5,6,7,8,9}" by auto
  then show ?thesis by (auto simp: digit_char_def)
qed

lemma str_nat_digits: "list_all isdigit (str_nat n)"
proof (induction n rule: str_nat.induct)
  case (1 n)
  show ?case
  proof (cases "n < 10")
    case True
    then show ?thesis by (subst str_nat.simps) (simp add: digit_char_isdigit)
  next
    case False
    with 1 have "list_all isdigit (str_nat (n div 10))" by simp
    moreover have "isdigit (digit_char (n mod 10))" by (simp add: digit_char_isdigit)
    ultimately show ?thesis using False by (subst str_nat.simps) simp
  qed
qed

lemma str_nat_nonempty: "str_nat n \<noteq> []"
  by (subst str_nat.simps) simp

lemma int_str_snoc: "int_str (ds @ [c]) = 10 * int_str ds + (of_char c - 48)"
  by (simp add: int_str_def)

lemma int_str_str_nat: "int_str (str_nat n) = n"
proof (induction n rule: str_nat.induct)
  case (1 n)
  show ?case
  proof (cases "n < 10")
    case True
    then show ?thesis by (subst str_nat.simps) (simp add: int_str_def digit_char_val)
  next
    case False
    with 1 have ih: "int_str (str_nat (n div 10)) = n div 10" by simp
    have "str_nat n = str_nat (n div 10) @ [digit_char (n mod 10)]"
      using False by (subst str_nat.simps) simp
    then show ?thesis by (simp add: int_str_snoc ih digit_char_val)
  qed
qed

lemma dot_not_digit: "\<not> isdigit CHR ''.''"
  by (simp add: isdigit_def)

lemma takeWhile_digits_dot:
  "list_all isdigit ds \<Longrightarrow> takeWhile isdigit (ds @ CHR ''.'' # r) = ds"
  by (induction ds) (auto simp: dot_not_digit)

lemma dropWhile_digits_dot:
  "list_all isdigit ds \<Longrightarrow> dropWhile isdigit (ds @ CHR ''.'' # r) = CHR ''.'' # r"
  by (induction ds) (auto simp: dot_not_digit)

lemma dotted_eq:
  assumes "list_all isdigit a" "list_all isdigit b"
    and "a @ CHR ''.'' # r = b @ CHR ''.'' # s"
  shows "a = b \<and> r = s"
proof -
  have "takeWhile isdigit (a @ CHR ''.'' # r) = takeWhile isdigit (b @ CHR ''.'' # s)"
    using assms(3) by simp
  then have "a = b" using assms(1,2) by (simp add: takeWhile_digits_dot)
  then show ?thesis using assms(3) by simp
qed

lemma str_nat_inj: "str_nat a = str_nat b \<Longrightarrow> a = b"
  by (metis int_str_str_nat)

lemma major_minor_eq:
  "major_minor v = str_nat a @ ''.'' @ str_nat b \<longleftrightarrow> major v = a \<and> minor v = b"
proof
  assume h: "major_minor v = str_nat a @ ''.'' @ str_nat b"
  then have "str_nat (major v) @ CHR ''.'' # str_nat (minor v) = str_nat a @ CHR ''.'' # str_nat b"
    by (simp add: major_minor_def)
  then have "str_nat (major v) = str_nat a \<and> str_nat (minor v) = str_nat b"
    by (rule dotted_eq[OF str_nat_digits str_nat_digits])
  then show "major v = a \<and> minor v = b" by (auto dest: str_nat_inj)
next
  assume "major v = a \<and> minor v = b"
  then show "major_minor v = str_nat a @ ''.'' @ str_nat b" by (simp add: major_minor_def)
qed

lemma major_minor_same:
  "major_minor v = major_minor w \<longleftrightarrow> major v = major w \<and> minor v = minor w"
  using major_minor_eq[of v "major w" "minor w"] unfolding major_minor_def by simp

lemma UPGRADE_PATHS_cases:
  assumes "UPGRADE_PATHS (major_minor w) = Some nb"
  shows "((major w = 9 \<and> minor w = 0) \<and> nb = ''9.1.0'') \<or>
         ((major w = 9 \<and> minor w = 1) \<and> nb = ''10.0.0'') \<or>
         ((major w = 10 \<and> minor w = 0) \<and> nb = ''10.1.0'') \<or>
         ((major w = 10 \<and> minor w = 1) \<and> nb = ''10.2.0'') \<or>
         ((major w = 10 \<and> minor w = 2) \<and> nb = ''11.0.0'') \<or>
         ((major w = 11 \<and> minor w = 0) \<and> nb = ''11.1.0'') \<or>
         ((major w = 11 \<and> minor w = 1) \<and> nb = ''11.2.0'') \<or>
         ((major w = 11 \<and> minor w = 2) \<and> nb = ''12.1.2'')"
proof -
  have k: "''9.0'' = str_nat 9 @ ''.'' @ str_nat 0" "''9.1'' = str_nat 9 @ ''.'' @ str_nat 1"
    "''10.0'' = str_nat 10 @ ''.'' @ str_nat 0" "''10.1'' = str_nat 10 @ ''.'' @ str_nat 1"
    "''10.2'' = str_nat 10 @ ''.'' @ str_nat 2" "''11.0'' = str_nat 11 @ ''.'' @ str_nat 0"
    "''11.1'' = str_nat 11 @ ''.'' @ str_nat 1" "''11.2'' = str_nat 11 @ ''.'' @ str_nat 2"
    by (simp_all add: str_nat.simps digit_char_def)
  from assms have "(major_minor w, nb) \<in> set [(''9.0'', ''9.1.0''),
      (''9.1'', ''10.0.0''),
      (''10.0'', ''10.1.0''),
      (''10.1'', ''10.2.0''),
      (''10.2'', ''11.0.0''),
      (''11.0'', ''11.1.0''),
      (''11.1'', ''11.2.0''),
      (''11.2'', ''12.1.2'')]"
    unfolding UPGRADE_PATHS_def by (rule map_of_SomeD)
  then have "(major_minor w = ''9.0'' \<and> nb = ''9.1.0'') \<or>
     (major_minor w = ''9.1'' \<and> nb = ''10.0.0'') \<or>
     (major_minor w = ''10.0'' \<and> nb = ''10.1.0'') \<or>
     (major_minor w = ''10.1'' \<and> nb = ''10.2.0'') \<or>
     (major_minor w = ''10.2'' \<and> nb = ''11.0.0'') \<or>
     (major_minor w = ''11.0'' \<and> nb = ''11.1.0'') \<or>
     (major_minor w = ''11.1'' \<and> nb = ''11.2.0'') \<or>
     (major_minor w = ''11.2'' \<and> nb = ''12.1.2'')"
    by (simp only: list.set insert_iff empty_iff prod.inject simp_thms)
  then show ?thesis
    by (simp only: k major_minor_eq)
qed

subsection \<open>The planner\<close>

lemma parse_bases:
  "parse ''9.1.0'' = Inr \<lparr>major = 9, minor = 1, patch = 0, original = ''9.1.0''\<rparr>"
  "parse ''10.0.0'' = Inr \<lparr>major = 10, minor = 0, patch = 0, original = ''10.0.0''\<rparr>"
  "parse ''10.1.0'' = Inr \<lparr>major = 10, minor = 1, patch = 0, original = ''10.1.0''\<rparr>"
  "parse ''10.2.0'' = Inr \<lparr>major = 10, minor = 2, patch = 0, original = ''10.2.0''\<rparr>"
  "parse ''11.0.0'' = Inr \<lparr>major = 11, minor = 0, patch = 0, original = ''11.0.0''\<rparr>"
  "parse ''11.1.0'' = Inr \<lparr>major = 11, minor = 1, patch = 0, original = ''11.1.0''\<rparr>"
  "parse ''11.2.0'' = Inr \<lparr>major = 11, minor = 2, patch = 0, original = ''11.2.0''\<rparr>"
  "parse ''12.1.2'' = Inr \<lparr>major = 12, minor = 1, patch = 2, original = ''12.1.2''\<rparr>"
  by (simp_all add: parse_def Let_def strip_def isspace_def match_version_def isdigit_def int_str_def)

lemma UPGRADE_PATHS_step:
  assumes "UPGRADE_PATHS (major_minor w) = Some nb" and "parse nb = Inr nv"
  shows "10 * major w + minor w < 10 * major nv + minor nv \<and> 10 * major nv + minor nv \<le> 121
         \<and> patch nv \<le> 2"
  using UPGRADE_PATHS_cases[OF assms(1)] assms(2)
  by (elim disjE conjE) (auto simp: parse_bases)

function upgrade_loop :: "Version \<Rightarrow> Version \<Rightarrow> string list \<Rightarrow> error + string list" where
  "upgrade_loop working_version target path =
     (if version_lt working_version target then
        (case UPGRADE_PATHS (major_minor working_version) of
           Some next_base \<Rightarrow>
             (case parse next_base of
                Inl e \<Rightarrow> Inl e
              | Inr next_version \<Rightarrow>
                  if major_minor next_version = major_minor target
                  then Inr (path @ [str_version target])
                  else if version_le next_version target
                  then upgrade_loop next_version target (path @ [next_base])
                  else Inr (path @ [str_version target]))
         | None \<Rightarrow> Inr (path @ [str_version target]))
      else Inr path)"
  by pat_completeness auto
termination
proof (relation "measure (\<lambda>(w, t, p). 200 - (10 * major w + minor w))")
  show "wf (measure (\<lambda>(w, t, p). 200 - (10 * major w + minor w)))" by simp
next
  fix working_version target :: Version and path :: "string list" and x2 x2a
  assume "UPGRADE_PATHS (major_minor working_version) = Some x2" "parse x2 = Inr x2a"
  from UPGRADE_PATHS_step[OF this]
  have "10 * major working_version + minor working_version < 10 * major x2a + minor x2a"
    and "10 * major x2a + minor x2a \<le> 121" by simp_all
  then show "((x2a, target, path @ [x2]), working_version, target, path)
         \<in> measure (\<lambda>(w, t, p). 200 - (10 * major w + minor w))"
    by simp
qed

declare upgrade_loop.simps [simp del]

definition get_upgrade_path :: "string \<Rightarrow> string \<Rightarrow> error + string list" where
  "get_upgrade_path current_version target_version =
     (case parse current_version of
        Inl e \<Rightarrow> Inl e
      | Inr current \<Rightarrow>
          (case parse target_version of
             Inl e \<Rightarrow> Inl e
           | Inr target \<Rightarrow>
               if version_ge current target then Inr []
               else upgrade_loop current target []))"

text \<open>
  A list of versions is strictly increasing when each element is below the next one in
  the order of the class.
\<close>

fun increasing :: "Version list \<Rightarrow> bool" where
  "increasing (a # b # r) = (version_lt a b \<and> increasing (b # r))"
| "increasing _ = True"

text \<open>
  The hotfix removal in the words of the specification: one trailing suffix \<open>-h\<close>
  followed by digits is cut off the end of the string.  It is compared with
  \<open>sub_hotfix\<close>, the model of the regular expression, below.
\<close>

definition strip_hotfix_suffix :: "string \<Rightarrow> string" where
  "strip_hotfix_suffix s =
     (let ds = takeWhile isdigit (rev s); r = dropWhile isdigit (rev s) in
      if ds \<noteq> [] \<and> take 2 r = ''h-'' then rev (drop 2 r) else s)"

section \<open>More string operations\<close>

definition isupper :: "char \<Rightarrow> bool" where
  "isupper c = (let n = (of_char c :: nat) in
      (65 \<le> n \<and> n \<le> 90) \<or> (192 \<le> n \<and> n \<le> 222 \<and> n \<noteq> 215))"

text \<open>
  An upper-case character of this range has the bit of value 32 clear, and its
  lower-case form is the same character with that bit set.
\<close>

definition lower_char :: "char \<Rightarrow> char" where
  "lower_char c =
     (if isupper c
      then (case c of Char b0 b1 b2 b3 b4 b5 b6 b7 \<Rightarrow> Char b0 b1 b2 b3 b4 True b6 b7)
      else c)"

definition lower :: "string \<Rightarrow> string" where
  "lower s = map lower_char s"

text \<open>\<open>sub in s\<close>: \<open>sub\<close> occurs in \<open>s\<close> as a contiguous substring.\<close>

fun str_in :: "string \<Rightarrow> string \<Rightarrow> bool" where
  "str_in sub [] = (sub = [])"
| "str_in sub (c # cs) = (take (length sub) (c # cs) = sub \<or> str_in sub cs)"

text \<open>\<open>s.split(sep)\<close> for a separator of one character.\<close>

fun split_on :: "char \<Rightarrow> string \<Rightarrow> string list" where
  "split_on sep [] = [[]]"
| "split_on sep (c # cs) =
     (if c = sep then [] # split_on sep cs
      else (case split_on sep cs of l # ls \<Rightarrow> (c # l) # ls | [] \<Rightarrow> [[c]]))"

definition newline :: char where
  "newline = CHR 0x0A"

section \<open>The device and the clock\<close>

text \<open>
  The firewall, the network and the operator are an environment of scripts: what the
  \<open>n\<close>-th command sent over any session returns (an output or an exception of the
  transport), whether the \<open>n\<close>-th SSH handshake succeeds, how the \<open>n\<close>-th TCP probe
  ends, and what the \<open>n\<close>-th reading of the cancel flag gives.  Each interaction also
  takes a number of seconds.  The world records the clock (\<open>time.time()\<close>, in whole
  seconds), the commands sent so far, how far each script has been consumed, the number
  of SSH connections that are open, and the errors reported.  Progress messages and
  log lines other than error reports do not influence any result and are left out.
\<close>

datatype tcp_result = TcpOpen | TcpClosed | TcpRaises

record env =
  commands :: "nat \<Rightarrow> nat \<times> (error + string)"
  handshakes :: "nat \<Rightarrow> nat \<times> error option"
  tcp_probes :: "nat \<Rightarrow> nat \<times> tcp_result"
  cancels :: "nat \<Rightarrow> bool"

datatype report = LogError string error | ShowError string error

record world =
  now :: int
  sent :: "string list"
  n_handshakes :: nat
  n_probes :: nat
  n_cancel_checks :: nat
  live :: nat
  reports :: "report list"

definition sleep :: "nat \<Rightarrow> world \<Rightarrow> world" where
  "sleep seconds w = w\<lparr>now := now w + int seconds\<rparr>"

text \<open>The three operations of the transport library.\<close>

definition ConnectHandler :: "env \<Rightarrow> world \<Rightarrow> (error + unit) \<times> world" where
  "ConnectHandler E w =
     (case handshakes E (n_handshakes w) of
        (d, r) \<Rightarrow>
          (case r of
             Some e \<Rightarrow> (Inl e, w\<lparr>now := now w + int d, n_handshakes := Suc (n_handshakes w)\<rparr>)
           | None \<Rightarrow> (Inr (), w\<lparr>now := now w + int d, n_handshakes := Suc (n_handshakes w),
                                  live := Suc (live w)\<rparr>)))"

definition connection_send :: "env \<Rightarrow> string \<Rightarrow> world \<Rightarrow> (error + string) \<times> world" where
  "connection_send E command w =
     (case commands E (length (sent w)) of
        (d, r) \<Rightarrow> (r, w\<lparr>now := now w + int d, sent := sent w @ [command]\<rparr>))"

definition connection_disconnect :: "world \<Rightarrow> world" where
  "connection_disconnect w = w\<lparr>live := live w - 1\<rparr>"

definition socket_connect_ex :: "env \<Rightarrow> world \<Rightarrow> tcp_result \<times> world" where
  "socket_connect_ex E w =
     (case tcp_probes E (n_probes w) of
        (d, r) \<Rightarrow> (r, w\<lparr>now := now w + int d, n_probes := Suc (n_probes w)\<rparr>))"

section \<open>PANOSSSHClient\<close>

text \<open>Of the client object only the field \<open>connection\<close> matters: set or \<open>None\<close>.\<close>

record PANOSSSHClient =
  connection :: bool

definition new_client :: PANOSSSHClient where
  "new_client = \<lparr>connection = False\<rparr>"

definition client_connect ::
  "env \<Rightarrow> PANOSSSHClient \<Rightarrow> world \<Rightarrow> (error + unit) \<times> PANOSSSHClient \<times> world" where
  "client_connect E c w =
     (case ConnectHandler E w of
        (Inl e, w') \<Rightarrow> (Inl e, c, w')
      | (Inr _, w') \<Rightarrow> (Inr (), c\<lparr>connection := True\<rparr>, w'))"

text \<open>
  \<open>disconnect\<close> swallows an exception of the library's own disconnect and clears the
  field in its \<open>finally\<close>, so it never raises.
\<close>

definition client_disconnect :: "PANOSSSHClient \<Rightarrow> world \<Rightarrow> PANOSSSHClient \<times> world" where
  "client_disconnect c w =
     (if connection c then (c\<lparr>connection := False\<rparr>, connection_disconnect w) else (c, w))"

definition send_command ::
  "env \<Rightarrow> PANOSSSHClient \<Rightarrow> string \<Rightarrow> world \<Rightarrow> (error + string) \<times> world" where
  "send_command E c command w =
     (if \<not> connection c then (Inl (RuntimeError ''Not connected to firewall''), w)
      else connection_send E command w)"

definition send_command_timing ::
  "env \<Rightarrow> PANOSSSHClient \<Rightarrow> string \<Rightarrow> world \<Rightarrow> (error + string) \<times> world" where
  "send_command_timing E c command w =
     (if \<not> connection c then (Inl (RuntimeError ''Not connected to firewall''), w)
      else connection_send E command w)"

text \<open>
  \<open>get_system_info\<close> turns the lines \<open>key: value\<close> of the output into a dictionary;
  a later line with the same key replaces an earlier one.
\<close>

definition info_line :: "(string \<rightharpoonup> string) \<Rightarrow> string \<Rightarrow> (string \<rightharpoonup> string)" where
  "info_line info line =
     (if CHR '':'' \<in> set line
      then info(lower (strip (takeWhile (\<lambda>c. c \<noteq> CHR '':'') line)) \<mapsto>
                strip (drop 1 (dropWhile (\<lambda>c. c \<noteq> CHR '':'') line)))
      else info)"

definition get_system_info ::
  "env \<Rightarrow> PANOSSSHClient \<Rightarrow> world \<Rightarrow> (error + (string \<rightharpoonup> string)) \<times> world" where
  "get_system_info E c w =
     (case send_command E c ''show system info'' w of
        (Inl e, w') \<Rightarrow> (Inl e, w')
      | (Inr output, w') \<Rightarrow> (Inr (foldl info_line Map.empty (split_on newline output)), w'))"

definition get_panos_version ::
  "env \<Rightarrow> PANOSSSHClient \<Rightarrow> world \<Rightarrow> (error + string) \<times> world" where
  "get_panos_version E c w =
     (case get_system_info E c w of
        (Inl e, w') \<Rightarrow> (Inl e, w')
      | (Inr info, w') \<Rightarrow> (Inr (case info ''sw-version'' of Some v \<Rightarrow> v | None \<Rightarrow> ''''), w'))"

section \<open>PANOSUpgrader\<close>

record PANOSUpgrader =
  client :: "PANOSSSHClient option"

definition upgrader_connect ::
  "env \<Rightarrow> PANOSUpgrader \<Rightarrow> world \<Rightarrow> (error + unit) \<times> PANOSUpgrader \<times> world" where
  "upgrader_connect E u w =
     (case client_connect E new_client w of
        (r, c, w') \<Rightarrow> (r, u\<lparr>client := Some c\<rparr>, w'))"

definition upgrader_disconnect :: "PANOSUpgrader \<Rightarrow> world \<Rightarrow> PANOSUpgrader \<times> world" where
  "upgrader_disconnect u w =
     (case client u of
        Some c \<Rightarrow> (u\<lparr>client := None\<rparr>, snd (client_disconnect c w))
      | None \<Rightarrow> (u, w))"

definition get_current_version ::
  "env \<Rightarrow> PANOSUpgrader \<Rightarrow> world \<Rightarrow> (error + string) \<times> world" where
  "get_current_version E u w =
     (case client u of
        None \<Rightarrow> (Inl (RuntimeError ''Not connected''), w)
      | Some c \<Rightarrow> get_panos_version E c w)"

definition check_available_versions ::
  "env \<Rightarrow> PANOSUpgrader \<Rightarrow> world \<Rightarrow> (error + string) \<times> world" where
  "check_available_versions E u w =
     (case client u of
        None \<Rightarrow> (Inl (RuntimeError ''Not connected''), w)
      | Some c \<Rightarrow> send_command E c ''request system software check'' w)"

subsection \<open>Waiting for a download\<close>

text \<open>The test of one status text for the line that shows the version as downloaded.\<close>

definition download_complete :: "string \<Rightarrow> string \<Rightarrow> bool" where
  "download_complete version status =
     (str_in version status \<and>
      list_ex (\<lambda>line. str_in version line \<and>
                 (str_in ''yes'' (lower line) \<or> str_in ''downloaded'' (lower line)))
              (split_on newline status))"

lemma send_command_now: "now w \<le> now (snd (send_command E c command w))"
  by (simp add: send_command_def connection_send_def split: prod.splits)

lemma after_sleep_send:
  assumes "(x, y) = send_command E c command (sleep 30 w)"
  shows "now w + 30 \<le> now y"
proof -
  have "y = snd (send_command E c command (sleep 30 w))" by (simp flip: assms)
  moreover have "now (sleep 30 w) = now w + 30" by (simp add: sleep_def)
  ultimately show ?thesis using send_command_now[of "sleep 30 w" E c command] by simp
qed

lemma poll_measure:
  fixes E :: env and c :: PANOSSSHClient and version :: string
  assumes "now w - start_time < timeout" and "now w + 30 \<le> now y"
  shows "((E, c, version, timeout, start_time, y), E, c, version, timeout, start_time, w)
      \<in> measure (\<lambda>(E, c, version, timeout, start_time, w). nat (timeout - (now w - start_time)))"
  using assms by simp

function download_poll ::
  "env \<Rightarrow> PANOSSSHClient \<Rightarrow> string \<Rightarrow> int \<Rightarrow> int \<Rightarrow> world \<Rightarrow> (error + unit) \<times> world" where
  "download_poll E c version timeout start_time w =
     (if now w - start_time < timeout then
        (case send_command E c ''request system software info'' (sleep 30 w) of
           (Inl e, w') \<Rightarrow> (Inl e, w')
         | (Inr status, w') \<Rightarrow>
             if download_complete version status then (Inr (), w')
             else if str_in ''failed'' (lower status)
             then (Inl (RuntimeError (''Download of '' @ version @ '' failed'')), w')
             else download_poll E c version timeout start_time w')
      else (Inl (RuntimeError (''Download of '' @ version @ '' timed out'')), w))"
  by pat_completeness auto
termination
proof (relation "measure (\<lambda>(E, c, version, timeout, start_time, w). nat (timeout - (now w - start_time)))")
  show "wf (measure (\<lambda>(E, c, version, timeout, start_time, w). nat (timeout - (now w - start_time))))"
    by simp
next
  fix E c and version :: string and timeout start_time w x y
  assume lt: "now w - start_time < timeout"
    and eq: "(x, y) = send_command E c ''request system software info'' (sleep 30 w)"
  have "now w + 30 \<le> now y" using eq by (rule after_sleep_send)
  with lt show "((E, c, version, timeout, start_time, y), E, c, version, timeout, start_time, w)
      \<in> measure (\<lambda>(E, c, version, timeout, start_time, w). nat (timeout - (now w - start_time)))"
    by (rule poll_measure)
qed

declare download_poll.simps [simp del]

definition wait_for_software_download ::
  "env \<Rightarrow> PANOSUpgrader \<Rightarrow> string \<Rightarrow> int \<Rightarrow> world \<Rightarrow> (error + unit) \<times> world" where
  "wait_for_software_download E u version timeout w =
     (case client u of
        None \<Rightarrow> (Inl (RuntimeError ''Not connected''), w)
      | Some c \<Rightarrow> download_poll E c version timeout (now w) w)"

definition download_version ::
  "env \<Rightarrow> PANOSUpgrader \<Rightarrow> string \<Rightarrow> int \<Rightarrow> world \<Rightarrow> (error + unit) \<times> world" where
  "download_version E u version timeout w =
     (case client u of
        None \<Rightarrow> (Inl (RuntimeError ''Not connected''), w)
      | Some c \<Rightarrow>
          (case send_command E c (''request system software download version '' @ version) w of
             (Inl e, w') \<Rightarrow> (Inl e, w')
           | (Inr output, w') \<Rightarrow>
               if str_in ''already downloaded'' (lower output) then (Inr (), w')
               else if str_in ''download job enqueued'' (lower output)
                       \<or> str_in ''started'' (lower output)
               then wait_for_software_download E u version timeout w'
               else if str_in ''successfully'' (lower output) then (Inr (), w')
               else if str_in ''failed'' (lower output) \<or> str_in ''error'' (lower output)
               then (Inl (RuntimeError (''Failed to download '' @ version @ '': '' @ output)), w')
               else (Inr (), w')))"

definition download_software ::
  "env \<Rightarrow> PANOSUpgrader \<Rightarrow> string \<Rightarrow> int \<Rightarrow> world \<Rightarrow> (error + unit) \<times> world" where
  "download_software E u version timeout w =
     (case client u of
        None \<Rightarrow> (Inl (RuntimeError ''Not connected''), w)
      | Some c \<Rightarrow>
          (case parse version of
             Inl e \<Rightarrow> (Inl e, w)
           | Inr ver \<Rightarrow>
               if patch ver \<noteq> 0 then
                 (case download_version E u (base_version ver) (timeout div 2) w of
                    (Inl e, w') \<Rightarrow> (Inl e, w')
                  | (Inr _, w') \<Rightarrow> download_version E u version timeout w')
               else download_version E u version timeout w))"

subsection \<open>Waiting for an installation\<close>

text \<open>
  What the body of the \<open>try\<close> in the polling loop does with one status text: return
  (the installation is complete), go on polling, or raise.
\<close>

datatype poll_step = Return | Continue

definition install_status :: "string \<Rightarrow> string \<Rightarrow> error + poll_step" where
  "install_status version status =
     (if str_in ''installed'' (lower status) \<and> str_in version status then Inr Return
      else if str_in ''running'' (lower status) \<or> str_in ''pending'' (lower status)
      then Inr Continue
      else if str_in ''failed'' (lower status)
      then Inl (RuntimeError (''Installation of '' @ version @ '' failed''))
      else Inr Continue)"

definition install_try :: "env \<Rightarrow> PANOSSSHClient \<Rightarrow> string \<Rightarrow> world \<Rightarrow> (error + poll_step) \<times> world" where
  "install_try E c version w =
     (case send_command E c ''show jobs all'' w of
        (Inl e, w') \<Rightarrow> (Inl e, w')
      | (Inr status, w') \<Rightarrow> (install_status version status, w'))"

lemma install_try_now: "now w \<le> now (snd (install_try E c version w))"
  using send_command_now[of w E c "''show jobs all''"]
  by (auto simp: install_try_def split: prod.splits sum.splits)

lemma after_sleep_try:
  assumes "(x, y) = install_try E c version (sleep 30 w)"
  shows "now w + 30 \<le> now y"
proof -
  have "y = snd (install_try E c version (sleep 30 w))" by (simp flip: assms)
  moreover have "now (sleep 30 w) = now w + 30" by (simp add: sleep_def)
  ultimately show ?thesis using install_try_now[of "sleep 30 w" E c version] by simp
qed

text \<open>
  The loop: the \<open>except Exception\<close> around the body catches whatever the body raises
  and goes on with the next round.
\<close>

function install_poll ::
  "env \<Rightarrow> PANOSSSHClient \<Rightarrow> string \<Rightarrow> int \<Rightarrow> int \<Rightarrow> world \<Rightarrow> (error + unit) \<times> world" where
  "install_poll E c version timeout start_time w =
     (if now w - start_time < timeout then
        (case install_try E c version (sleep 30 w) of
           (Inr Return, w') \<Rightarrow> (Inr (), w')
         | (Inr Continue, w') \<Rightarrow> install_poll E c version timeout start_time w'
         | (Inl e, w') \<Rightarrow> install_poll E c version timeout start_time w')
      else (Inl (RuntimeError (''Installation of '' @ version @ '' timed out'')), w))"
  by pat_completeness auto
termination
proof (relation "measure (\<lambda>(E, c, version, timeout, start_time, w). nat (timeout - (now w - start_time)))")
  show "wf (measure (\<lambda>(E, c, version, timeout, start_time, w). nat (timeout - (now w - start_time))))"
    by simp
next
  fix E c version timeout start_time w x y a
  assume "now w - start_time < timeout"
    and "(x, y) = install_try E c version (sleep 30 w)"
  then show "((E, c, version, timeout, start_time, y), E, c, version, timeout, start_time, w)
      \<in> measure (\<lambda>(E, c, version, timeout, start_time, w). nat (timeout - (now w - start_time)))"
    by (rule poll_measure[OF _ after_sleep_try])
next
  fix E c version timeout start_time w x y b
  assume "now w - start_time < timeout"
    and "(x, y) = install_try E c version (sleep 30 w)"
  then show "((E, c, version, timeout, start_time, y), E, c, version, timeout, start_time, w)
      \<in> measure (\<lambda>(E, c, version, timeout, start_time, w). nat (timeout - (now w - start_time)))"
    by (rule poll_measure[OF _ after_sleep_try])
qed

declare install_poll.simps [simp del]

definition wait_for_software_install ::
  "env \<Rightarrow> PANOSUpgrader \<Rightarrow> string \<Rightarrow> int \<Rightarrow> world \<Rightarrow> (error + unit) \<times> world" where
  "wait_for_software_install E u version timeout w =
     (case client u of
        None \<Rightarrow> (Inl (RuntimeError ''Not connected''), w)
      | Some c \<Rightarrow> install_poll E c version timeout (now w) w)"

definition install_software ::
  "env \<Rightarrow> PANOSUpgrader \<Rightarrow> string \<Rightarrow> int \<Rightarrow> world \<Rightarrow> (error + unit) \<times> world" where
  "install_software E u version timeout w =
     (case client u of
        None \<Rightarrow> (Inl (RuntimeError ''Not connected''), w)
      | Some c \<Rightarrow>
          (case send_command E c (''request system software install version '' @ version) w of
             (Inl e, w') \<Rightarrow> (Inl e, w')
           | (Inr output, w') \<Rightarrow>
               if str_in ''install job enqueued'' (lower output) \<or> str_in ''started'' (lower output)
               then wait_for_software_install E u version timeout w'
               else if str_in ''successfully'' (lower output) \<or> str_in ''installed'' (lower output)
               then (Inr (), w')
               else if str_in ''failed'' (lower output) \<or> str_in ''error'' (lower output)
               then (Inl (RuntimeError (''Failed to install '' @ version @ '': '' @ output)), w')
               else (Inr (), w')))"

subsection \<open>Reboot and reachability\<close>

text \<open>
  \<open>reboot\<close>: the two commands are sent inside a \<open>try\<close> whose handler is \<open>pass\<close>; the
  session is closed whatever happened.
\<close>

definition reboot ::
  "env \<Rightarrow> PANOSUpgrader \<Rightarrow> world \<Rightarrow> (error + unit) \<times> PANOSUpgrader \<times> world" where
  "reboot E u w =
     (case client u of
        None \<Rightarrow> (Inl (RuntimeError ''Not connected''), u, w)
      | Some c \<Rightarrow>
          (case upgrader_disconnect u
                  (case send_command_timing E c ''request restart system'' w of
                     (Inl e, w') \<Rightarrow> w'
                   | (Inr _, w') \<Rightarrow> snd (send_command_timing E c ''y'' w')) of
             (u', w'') \<Rightarrow> (Inr (), u', w'')))"

text \<open>
  One round of \<open>wait_for_ssh\<close> up to, and without, the sleep that follows a failed
  round: the TCP probe, and when the port is open a fresh client that connects, runs
  \<open>show clock\<close> and disconnects.  Both \<open>try\<close> blocks catch every exception.
\<close>

definition ssh_attempt :: "env \<Rightarrow> world \<Rightarrow> bool \<times> world" where
  "ssh_attempt E w =
     (case socket_connect_ex E w of
        (TcpOpen, w1) \<Rightarrow>
          (case client_connect E new_client w1 of
             (Inl e, c, w2) \<Rightarrow> (False, w2)
           | (Inr _, c, w2) \<Rightarrow>
               (case send_command_timing E c ''show clock'' w2 of
                  (Inl e, w3) \<Rightarrow> (False, w3)
                | (Inr _, w3) \<Rightarrow> (True, snd (client_disconnect c w3))))
      | (TcpClosed, w1) \<Rightarrow> (False, w1)
      | (TcpRaises, w1) \<Rightarrow> (False, w1))"

partial_function (option) ssh_poll ::
  "env \<Rightarrow> int \<Rightarrow> nat \<Rightarrow> int \<Rightarrow> world \<Rightarrow> (bool \<times> world) option" where
  "ssh_poll E timeout poll_interval start_time w =
     (if now w - start_time < timeout then
        (case ssh_attempt E w of
           (ok, w') \<Rightarrow>
             if ok then Some (True, w')
             else ssh_poll E timeout poll_interval start_time (sleep poll_interval w'))
      else Some (False, w))"

declare ssh_poll.simps [code]

definition wait_for_ssh :: "env \<Rightarrow> int \<Rightarrow> nat \<Rightarrow> world \<Rightarrow> (bool \<times> world) option" where
  "wait_for_ssh E timeout poll_interval w = ssh_poll E timeout poll_interval (now w) w"

definition wait_for_reboot :: "env \<Rightarrow> int \<Rightarrow> world \<Rightarrow> (bool \<times> world) option" where
  "wait_for_reboot E timeout w = wait_for_ssh E (timeout - 60) 30 (sleep 60 w)"

subsection \<open>The complete upgrade\<close>

text \<open>The body of the \<open>for\<close> loop of \<open>upgrade_to_version\<close>, hop by hop.\<close>

fun upgrade_hops ::
  "env \<Rightarrow> string list \<Rightarrow> PANOSUpgrader \<Rightarrow> world
     \<Rightarrow> ((error + unit) \<times> PANOSUpgrader \<times> world) option" where
  "upgrade_hops E [] u w = Some (Inr (), u, w)"
| "upgrade_hops E (version # rest) u w =
     (case check_available_versions E u w of
        (Inl e, w1) \<Rightarrow> Some (Inl e, u, w1)
      | (Inr _, w1) \<Rightarrow>
     (case download_software E u version 1800 w1 of
        (Inl e, w2) \<Rightarrow> Some (Inl e, u, w2)
      | (Inr _, w2) \<Rightarrow>
     (case install_software E u version 1200 w2 of
        (Inl e, w3) \<Rightarrow> Some (Inl e, u, w3)
      | (Inr _, w3) \<Rightarrow>
     (case reboot E u w3 of
        (Inl e, u4, w4) \<Rightarrow> Some (Inl e, u4, w4)
      | (Inr _, u4, w4) \<Rightarrow>
     (case wait_for_reboot E 600 w4 of
        None \<Rightarrow> None
      | Some (False, w5) \<Rightarrow>
          Some (Inl (RuntimeError (''Firewall did not come back after upgrading to '' @ version)),
                u4, w5)
      | Some (True, w5) \<Rightarrow>
     (case upgrader_connect E u4 w5 of
        (Inl e, u6, w6) \<Rightarrow> Some (Inl e, u6, w6)
      | (Inr _, u6, w6) \<Rightarrow>
     (case get_current_version E u6 w6 of
        (Inl e, w7) \<Rightarrow> Some (Inl e, u6, w7)
      | (Inr new_version, w7) \<Rightarrow> upgrade_hops E rest u6 w7)))))))"

text \<open>The \<open>try\<close> block of \<open>upgrade_to_version\<close>: \<open>Inl\<close> is an exception that leaves it.\<close>

definition upgrade_try ::
  "env \<Rightarrow> string \<Rightarrow> PANOSUpgrader \<Rightarrow> world
     \<Rightarrow> ((error + bool) \<times> PANOSUpgrader \<times> world) option" where
  "upgrade_try E target_version u w =
     (case upgrader_connect E u w of
        (Inl e, u1, w1) \<Rightarrow> Some (Inl e, u1, w1)
      | (Inr _, u1, w1) \<Rightarrow>
     (case get_current_version E u1 w1 of
        (Inl e, w2) \<Rightarrow> Some (Inl e, u1, w2)
      | (Inr current, w2) \<Rightarrow>
     (case get_upgrade_path current target_version of
        Inl e \<Rightarrow> Some (Inl e, u1, w2)
      | Inr path \<Rightarrow>
          if path = [] then Some (Inr True, u1, w2)
          else (case upgrade_hops E path u1 w2 of
                  None \<Rightarrow> None
                | Some (Inl e, u3, w3) \<Rightarrow> Some (Inl e, u3, w3)
                | Some (Inr _, u3, w3) \<Rightarrow> Some (Inr True, u3, w3)))))"

definition log_error :: "string \<Rightarrow> error \<Rightarrow> world \<Rightarrow> world" where
  "log_error what e w = w\<lparr>reports := reports w @ [LogError what e]\<rparr>"

definition show_error :: "string \<Rightarrow> error \<Rightarrow> world \<Rightarrow> world" where
  "show_error title e w = w\<lparr>reports := reports w @ [ShowError title e]\<rparr>"

text \<open>
  \<open>upgrade_to_version\<close>: the handler \<open>except Exception\<close> logs and returns \<open>False\<close>, and
  the \<open>finally\<close> disconnects on every way out.  A result \<open>Inl\<close> would be an exception
  that leaves the method.
\<close>

definition upgrade_to_version ::
  "env \<Rightarrow> string \<Rightarrow> PANOSUpgrader \<Rightarrow> world
     \<Rightarrow> ((error + bool) \<times> PANOSUpgrader \<times> world) option" where
  "upgrade_to_version E target_version u w =
     (case upgrade_try E target_version u w of
        None \<Rightarrow> None
      | Some (Inl e, u1, w1) \<Rightarrow>
          (case upgrader_disconnect u1 (log_error ''Upgrade failed'' e w1) of
             (u2, w2) \<Rightarrow> Some (Inr False, u2, w2))
      | Some (Inr b, u1, w1) \<Rightarrow>
          (case upgrader_disconnect u1 w1 of (u2, w2) \<Rightarrow> Some (Inr b, u2, w2)))"

definition upgrade_firewall ::
  "env \<Rightarrow> string \<Rightarrow> world \<Rightarrow> ((error + bool) \<times> world) option" where
  "upgrade_firewall E target_version w =
     (case upgrade_to_version E target_version \<lparr>client = None\<rparr> w of
        None \<Rightarrow> None
      | Some (r, u, w') \<Rightarrow> Some (r, w'))"

section \<open>FirewallSetupOrchestrator\<close>

definition check_cancelled :: "env \<Rightarrow> world \<Rightarrow> bool \<times> world" where
  "check_cancelled E w =
     (cancels E (n_cancel_checks w), w\<lparr>n_cancel_checks := Suc (n_cancel_checks w)\<rparr>)"

text \<open>
  The loop of phase 4.  \<open>Inr False\<close>: the run was cancelled and the method returns
  \<open>False\<close>; \<open>Inr True\<close>: the loop ran to its end.
\<close>

fun phase4_hops ::
  "env \<Rightarrow> string list \<Rightarrow> PANOSUpgrader \<Rightarrow> world
     \<Rightarrow> ((error + bool) \<times> PANOSUpgrader \<times> world) option" where
  "phase4_hops E [] u w = Some (Inr True, u, w)"
| "phase4_hops E (version # rest) u w =
     (case check_cancelled E w of
        (True, w0) \<Rightarrow>
          (case upgrader_disconnect u w0 of (u', w') \<Rightarrow> Some (Inr False, u', w'))
      | (False, w0) \<Rightarrow>
     (case check_available_versions E u w0 of
        (Inl e, w1) \<Rightarrow> Some (Inl e, u, w1)
      | (Inr _, w1) \<Rightarrow>
     (case download_software E u version 1800 w1 of
        (Inl e, w2) \<Rightarrow> Some (Inl e, u, w2)
      | (Inr _, w2) \<Rightarrow>
     (case install_software E u version 1200 w2 of
        (Inl e, w3) \<Rightarrow> Some (Inl e, u, w3)
      | (Inr _, w3) \<Rightarrow>
     (case reboot E u w3 of
        (Inl e, u4, w4) \<Rightarrow> Some (Inl e, u4, w4)
      | (Inr _, u4, w4) \<Rightarrow>
     (case wait_for_reboot E 600 w4 of
        None \<Rightarrow> None
      | Some (False, w5) \<Rightarrow>
          Some (Inl (RuntimeError (''Firewall did not come back after upgrading to '' @ version)),
                u4, w5)
      | Some (True, w5) \<Rightarrow>
     (case upgrader_connect E u4 w5 of
        (Inl e, u6, w6) \<Rightarrow> Some (Inl e, u6, w6)
      | (Inr _, u6, w6) \<Rightarrow> phase4_hops E rest u6 w6)))))))"

definition phase4_try ::
  "env \<Rightarrow> string \<Rightarrow> world \<Rightarrow> ((error + bool) \<times> world) option" where
  "phase4_try E target_version w =
     (case upgrader_connect E \<lparr>client = None\<rparr> w of
        (Inl e, u1, w1) \<Rightarrow> Some (Inl e, w1)
      | (Inr _, u1, w1) \<Rightarrow>
     (case get_current_version E u1 w1 of
        (Inl e, w2) \<Rightarrow> Some (Inl e, w2)
      | (Inr current_version, w2) \<Rightarrow>
     (case get_upgrade_path current_version target_version of
        Inl e \<Rightarrow> Some (Inl e, w2)
      | Inr path \<Rightarrow>
          if path = [] then Some (Inr True, snd (upgrader_disconnect u1 w2))
          else
     (case phase4_hops E path u1 w2 of
        None \<Rightarrow> None
      | Some (Inl e, u3, w3) \<Rightarrow> Some (Inl e, w3)
      | Some (Inr False, u3, w3) \<Rightarrow> Some (Inr False, w3)
      | Some (Inr True, u3, w3) \<Rightarrow>
     (case get_current_version E u3 w3 of
        (Inl e, w4) \<Rightarrow> Some (Inl e, w4)
      | (Inr final_version, w4) \<Rightarrow> Some (Inr True, snd (upgrader_disconnect u3 w4)))))))"

definition phase4_upgrade ::
  "env \<Rightarrow> string \<Rightarrow> world \<Rightarrow> ((error + bool) \<times> world) option" where
  "phase4_upgrade E target_version w =
     (case phase4_try E target_version w of
        None \<Rightarrow> None
      | Some (Inl e, w') \<Rightarrow> Some (Inr False, show_error ''PAN-OS Upgrade Failed'' e w')
      | Some (Inr b, w') \<Rightarrow> Some (Inr b, w'))"

text \<open>
  \<open>run\<close>.  Phases 1 to 3 enter only through what they return or raise, so they are
  parameters here: any computations on the world that end with a flag or an exception.
\<close>

type_synonym phase = "world \<Rightarrow> (error + bool) \<times> world"

definition run_try ::
  "env \<Rightarrow> phase \<Rightarrow> phase \<Rightarrow> phase \<Rightarrow> string \<Rightarrow> world \<Rightarrow> ((error + bool) \<times> world) option" where
  "run_try E phase1 phase2 phase3 target_version w =
     (case phase1 w of
        (Inl e, w1) \<Rightarrow> Some (Inl e, w1)
      | (Inr False, w1) \<Rightarrow> Some (Inr False, w1)
      | (Inr True, w1) \<Rightarrow>
     (case check_cancelled E w1 of
        (True, w2) \<Rightarrow> Some (Inr False, w2)
      | (False, w2) \<Rightarrow>
     (case phase2 w2 of
        (Inl e, w3) \<Rightarrow> Some (Inl e, w3)
      | (Inr False, w3) \<Rightarrow> Some (Inr False, w3)
      | (Inr True, w3) \<Rightarrow>
     (case check_cancelled E w3 of
        (True, w4) \<Rightarrow> Some (Inr False, w4)
      | (False, w4) \<Rightarrow>
     (case phase3 w4 of
        (Inl e, w5) \<Rightarrow> Some (Inl e, w5)
      | (Inr False, w5) \<Rightarrow> Some (Inr False, w5)
      | (Inr True, w5) \<Rightarrow>
     (case check_cancelled E w5 of
        (True, w6) \<Rightarrow> Some (Inr False, w6)
      | (False, w6) \<Rightarrow> phase4_upgrade E target_version w6))))))"

definition run ::
  "env \<Rightarrow> phase \<Rightarrow> phase \<Rightarrow> phase \<Rightarrow> string \<Rightarrow> world \<Rightarrow> ((error + bool) \<times> world) option" where
  "run E phase1 phase2 phase3 target_version w =
     (case run_try E phase1 phase2 phase3 target_version w of
        None \<Rightarrow> None
      | Some (Inl e, w') \<Rightarrow> Some (Inr False, show_error ''Setup Failed'' e w')
      | Some (Inr b, w') \<Rightarrow> Some (Inr b, w'))"

section \<open>Concrete devices\<close>

text \<open>A world at time 0 in which nothing has happened yet.\<close>

definition quiet_world :: world where
  "quiet_world = \<lparr>now = 0, sent = [], n_handshakes = 0, n_probes = 0, n_cancel_checks = 0,
                    live = 0, reports = []\<rparr>"

text \<open>A device that answers every command with the status \<open>installation failed\<close>.\<close>

definition env_install_failed :: env where
  "env_install_failed =
     \<lparr>commands = (\<lambda>n. (0, Inr ''installation failed'')), handshakes = (\<lambda>n. (0, None)),
      tcp_probes = (\<lambda>n. (0, TcpOpen)), cancels = (\<lambda>n. False)\<rparr>"

text \<open>
  A device that reports version 10.2.0 to the first command and drops the transport
  at every later one.
\<close>

definition env_check_fails :: env where
  "env_check_fails =
     \<lparr>commands = (\<lambda>n. if n = 0 then (0, Inr ''sw-version: 10.2.0'')
                       else (0, Inl (TransportError ''connection lost''))),
      handshakes = (\<lambda>n. (0, None)),
      tcp_probes = (\<lambda>n. (0, TcpOpen)), cancels = (\<lambda>n. False)\<rparr>"

text \<open>A device that answers every command with \<open>Version already downloaded\<close>.\<close>

definition env_already_downloaded :: env where
  "env_already_downloaded =
     \<lparr>commands = (\<lambda>n. (0, Inr ''Version already downloaded'')), handshakes = (\<lambda>n. (0, None)),
      tcp_probes = (\<lambda>n. (0, TcpOpen)), cancels = (\<lambda>n. False)\<rparr>"

subsection \<open>Rounds of the SSH waiter\<close>

text \<open>
  In the words of the specification: a round fully succeeds when the TCP probe finds
  the port open, the SSH handshake succeeds, and the liveness command returns.
\<close>

definition attempt_succeeds :: "env \<Rightarrow> world \<Rightarrow> bool" where
  "attempt_succeeds E w =
     (snd (tcp_probes E (n_probes w)) = TcpOpen \<and>
      snd (handshakes E (n_handshakes w)) = None \<and>
      (case snd (commands E (length (sent w))) of Inr out \<Rightarrow> True | Inl e \<Rightarrow> False))"

text \<open>
  The world at the start of round \<open>k\<close> of the waiter, when the rounds before it have
  failed: each failed round is followed by one sleep of the poll interval.
\<close>

primrec attempt_start :: "env \<Rightarrow> nat \<Rightarrow> world \<Rightarrow> nat \<Rightarrow> world" where
  "attempt_start E poll_interval w 0 = w"
| "attempt_start E poll_interval w (Suc k) =
     sleep poll_interval (snd (ssh_attempt E (attempt_start E poll_interval w k)))"

text \<open>Round \<open>k\<close> is reached within the time limit after \<open>k\<close> failed rounds, and succeeds.\<close>

definition first_success :: "env \<Rightarrow> int \<Rightarrow> nat \<Rightarrow> int \<Rightarrow> world \<Rightarrow> nat \<Rightarrow> bool" where
  "first_success E timeout poll_interval start_time w k =
     ((\<forall>j<k. now (attempt_start E poll_interval w j) - start_time < timeout
             \<and> \<not> attempt_succeeds E (attempt_start E poll_interval w j))
      \<and> now (attempt_start E poll_interval w k) - start_time < timeout
      \<and> attempt_succeeds E (attempt_start E poll_interval w k))"

text \<open>After \<open>k\<close> failed rounds the time limit has elapsed.\<close>

definition timed_out :: "env \<Rightarrow> int \<Rightarrow> nat \<Rightarrow> int \<Rightarrow> world \<Rightarrow> nat \<Rightarrow> bool" where
  "timed_out E timeout poll_interval start_time w k =
     ((\<forall>j<k. now (attempt_start E poll_interval w j) - start_time < timeout
             \<and> \<not> attempt_succeeds E (attempt_start E poll_interval w j))
      \<and> timeout \<le> now (attempt_start E poll_interval w k) - start_time)"

text \<open>What a run of the loop that returns \<open>b\<close> in the world \<open>w'\<close> has done.\<close>

definition ssh_post :: "env \<Rightarrow> int \<Rightarrow> nat \<Rightarrow> int \<Rightarrow> world \<Rightarrow> bool \<Rightarrow> world \<Rightarrow> bool" where
  "ssh_post E timeout p start_time w b w' =
     (if b then \<exists>k. first_success E timeout p start_time w k
                    \<and> w' = snd (ssh_attempt E (attempt_start E p w k))
      else \<exists>k. timed_out E timeout p start_time w k \<and> w' = attempt_start E p w k)"

text \<open>
  A device whose port is closed at the first probe and open from the second on, and
  whose SSH service then answers.
\<close>

definition env_second_try :: env where
  "env_second_try =
     \<lparr>commands = (\<lambda>n. (1, Inr ''Mon Jan  1 00:00:00 UTC 2024'')), handshakes = (\<lambda>n. (2, None)),
      tcp_probes = (\<lambda>n. if n = 0 then (10, TcpClosed) else (0, TcpOpen)),
      cancels = (\<lambda>n. False)\<rparr>"

section \<open>Properties of the version model and the planner\<close>

lemmas parse_eval = parse_def Let_def strip_def isspace_def match_version_def isdigit_def
  int_str_def

lemmas path_eval = get_upgrade_path_def parse_eval version_ge_def version_lt_def version_eq_def
  version_le_def upgrade_loop.simps major_minor_def str_version_def str_nat.simps digit_char_def
  UPGRADE_PATHS_def

lemma digit_not_space: "isdigit c \<Longrightarrow> \<not> isspace c"
  by (auto simp: isdigit_def isspace_def)

lemma strip_id:
  assumes "s \<noteq> []" "\<not> isspace (hd s)" "\<not> isspace (last s)"
  shows "strip s = s"
proof -
  have a: "dropWhile isspace s = s" using assms(1,2) by (cases s) auto
  have "rev s \<noteq> []" "\<not> isspace (hd (rev s))" using assms(1,3) by (simp_all add: hd_rev)
  then have "dropWhile isspace (rev s) = rev s" by (cases "rev s") auto
  then show ?thesis by (simp add: strip_def a)
qed

lemma sub_hotfix_id: "CHR ''-'' \<notin> set s \<Longrightarrow> sub_hotfix s = s"
proof (induction s)
  case Nil
  then show ?case by simp
next
  case (Cons c cs)
  then have "\<not> hotfix_here (c # cs)" by (cases cs) auto
  with Cons show ?case by simp
qed

lemma takeWhile_digits_all: "list_all isdigit ds \<Longrightarrow> takeWhile isdigit ds = ds"
  by (induction ds) auto

lemma match_version_dotted:
  assumes "list_all isdigit a" "a \<noteq> []" "list_all isdigit b" "b \<noteq> []"
    "list_all isdigit c" "c \<noteq> []" "r = [] \<or> \<not> isdigit (hd r)"
  shows "match_version (a @ CHR ''.'' # b @ CHR ''.'' # c @ r) = Some (a, b, c)"
proof -
  have c: "takeWhile isdigit (c @ r) = c"
    using assms(5,7) by (cases r) (auto simp: takeWhile_digits_all takeWhile_append list_all_iff)
  show ?thesis
    using assms(1-6)
    by (simp add: match_version_def Let_def takeWhile_digits_dot dropWhile_digits_dot c)
qed

lemma str_version_chars: "set (str_version v) \<subseteq> insert CHR ''.'' (Collect isdigit)"
  using str_nat_digits[of "major v"] str_nat_digits[of "minor v"] str_nat_digits[of "patch v"]
  by (auto simp: str_version_def list_all_iff)

lemma parse_str_version:
  "parse (str_version v) =
     Inr \<lparr>major = major v, minor = minor v, patch = patch v, original = str_version v\<rparr>"
proof -
  let ?s = "str_version v"
  have ne: "?s \<noteq> []" by (simp add: str_version_def str_nat_nonempty)
  have hd: "isdigit (hd ?s)"
    using str_nat_digits[of "major v"] str_nat_nonempty[of "major v"]
    by (cases "str_nat (major v)") (auto simp: str_version_def)
  have la: "isdigit (last ?s)"
    using str_nat_digits[of "patch v"] str_nat_nonempty[of "patch v"]
    by (auto simp: str_version_def list_all_iff)
  have st: "strip ?s = ?s" using strip_id[OF ne] hd la by (simp add: digit_not_space)
  have "CHR ''-'' \<notin> set ?s" using str_version_chars[of v] by (auto simp: isdigit_def)
  then have sh: "sub_hotfix ?s = ?s" by (rule sub_hotfix_id)
  have m: "match_version ?s = Some (str_nat (major v), str_nat (minor v), str_nat (patch v))"
    using match_version_dotted[OF str_nat_digits str_nat_nonempty str_nat_digits str_nat_nonempty
        str_nat_digits str_nat_nonempty, of "[]" "major v" "minor v" "patch v"]
    by (simp add: str_version_def)
  show ?thesis by (simp add: parse_def Let_def st sh m int_str_str_nat)
qed

lemma UPGRADE_PATHS_parse:
  assumes "UPGRADE_PATHS (major_minor w) = Some nb"
  shows "\<exists>nv. parse nb = Inr nv"
  using UPGRADE_PATHS_cases[OF assms] by (elim disjE conjE) (simp_all add: parse_bases)

lemma UPGRADE_PATHS_higher:
  assumes "UPGRADE_PATHS (major_minor w) = Some nb" "parse nb = Inr nv"
  shows "version_lt w nv"
  using UPGRADE_PATHS_cases[OF assms(1)] assms(2)
  by (elim disjE conjE) (auto simp: parse_bases version_lt_def)

lemma version_lt_trans: "version_lt a b \<Longrightarrow> version_lt b c \<Longrightarrow> version_lt a c"
  by (auto simp: version_lt_def)

lemma version_total: "version_ge a b \<or> version_lt a b"
  by (auto simp: version_ge_def version_lt_def version_eq_def)

lemma version_ge_not_lt: "version_ge a b \<longleftrightarrow> \<not> version_lt a b"
  by (auto simp: version_ge_def version_lt_def version_eq_def)

lemma upgrade_loop_spec:
  "\<exists>r vs. upgrade_loop w t p = Inr (p @ r) \<and> (version_lt w t \<longrightarrow> r \<noteq> [])
     \<and> map parse r = map Inr vs \<and> increasing (w # vs)"
proof (induction w t p rule: upgrade_loop.induct)
  case (1 w t p)
  let ?tv = "\<lparr>major = major t, minor = minor t, patch = patch t, original = str_version t\<rparr>"
  have direct: "version_lt w t \<Longrightarrow> map parse [str_version t] = map Inr [?tv] \<and> increasing (w # [?tv])"
    by (simp add: parse_str_version version_lt_def)
  show ?case
  proof (cases "version_lt w t")
    case False
    then have "upgrade_loop w t p = Inr (p @ [])" by (simp add: upgrade_loop.simps)
    moreover have "map parse [] = map Inr ([]::Version list)" by simp
    ultimately show ?thesis using False by (intro exI[of _ "[]"]) simp
  next
    case lt: True
    show ?thesis
    proof (cases "UPGRADE_PATHS (major_minor w)")
      case None
      then have "upgrade_loop w t p = Inr (p @ [str_version t])"
        using lt by (simp add: upgrade_loop.simps)
      then show ?thesis using direct[OF lt] lt by (intro exI[of _ "[str_version t]"] exI[of _ "[?tv]"]) simp
    next
      case (Some nb)
      from UPGRADE_PATHS_parse[OF Some] obtain nv where nv: "parse nb = Inr nv" by blast
      have hi: "version_lt w nv" by (rule UPGRADE_PATHS_higher[OF Some nv])
      show ?thesis
      proof (cases "major_minor nv = major_minor t")
        case True
        then have "upgrade_loop w t p = Inr (p @ [str_version t])"
          using lt Some nv by (simp add: upgrade_loop.simps)
        then show ?thesis using direct[OF lt] lt
          by (intro exI[of _ "[str_version t]"] exI[of _ "[?tv]"]) simp
      next
        case diff: False
        show ?thesis
        proof (cases "version_le nv t")
          case False
          then have "upgrade_loop w t p = Inr (p @ [str_version t])"
            using lt Some nv diff by (simp add: upgrade_loop.simps)
          then show ?thesis using direct[OF lt] lt
            by (intro exI[of _ "[str_version t]"] exI[of _ "[?tv]"]) simp
        next
          case le: True
          from "1.IH"[OF lt Some nv diff le]
          obtain r vs where r: "upgrade_loop nv t (p @ [nb]) = Inr ((p @ [nb]) @ r)"
            and vs: "map parse r = map Inr vs" and inc: "increasing (nv # vs)" by blast
          have "upgrade_loop w t p = Inr (p @ (nb # r))"
            using lt Some nv diff le r by (simp add: upgrade_loop.simps)
          moreover have "map parse (nb # r) = map Inr (nv # vs)" using nv vs by simp
          moreover have "increasing (w # nv # vs)" using hi inc by simp
          ultimately show ?thesis by (intro exI[of _ "nb # r"] exI[of _ "nv # vs"]) simp
        qed
      qed
    qed
  qed
qed

text \<open>
  Claim C1, as the code has it.  From \<open>11.2.4\<close> to \<open>12.1.4\<close> the planner finds the
  forced base \<open>12.1.2\<close> of the key \<open>11.2\<close>, sees that it lies in the train of the
  target, and goes directly to the target: the path is \<open>[12.1.4]\<close>, and the base
  \<open>12.1.2\<close> is not a hop of its own.
\<close>

theorem get_upgrade_path_11_2_4_to_12_1_4:
  "get_upgrade_path ''11.2.4'' ''12.1.4'' = Inr [''12.1.4'']"
  by (simp add: path_eval)

text \<open>
  Claim C1 as stated (the path is \<open>[12.1.2, 12.1.4]\<close>) does not hold of the code.
\<close>

theorem get_upgrade_path_11_2_4_to_12_1_4_counterexample:
  "get_upgrade_path ''11.2.4'' ''12.1.4'' \<noteq> Inr [''12.1.2'', ''12.1.4'']"
  by (simp add: path_eval)

text \<open>
  Claim C5.  For every pair of parsable versions the planner returns a path, and the
  path is empty if and only if the current version is at or past the target in the
  order on (major, minor, patch).
\<close>

theorem get_upgrade_path_empty_iff:
  assumes "parse current_version = Inr current" and "parse target_version = Inr target"
  shows "\<exists>path. get_upgrade_path current_version target_version = Inr path
           \<and> (path = [] \<longleftrightarrow> version_ge current target)"
proof (cases "version_ge current target")
  case True
  then show ?thesis using assms by (simp add: get_upgrade_path_def)
next
  case False
  then have lt: "version_lt current target" using version_total by blast
  from upgrade_loop_spec[of current target "[]"] lt
  obtain r where "upgrade_loop current target [] = Inr r" "r \<noteq> []" by auto
  then show ?thesis using assms False by (simp add: get_upgrade_path_def)
qed

theorem get_upgrade_path_empty_iff_witness:
  "get_upgrade_path ''11.2.5'' ''11.2.4'' = Inr [] \<and>
   (\<exists>path. get_upgrade_path ''10.2.0'' ''10.2.4'' = Inr path \<and> path \<noteq> [])"
proof -
  have a: "parse ''11.2.5'' = Inr \<lparr>major = 11, minor = 2, patch = 5, original = ''11.2.5''\<rparr>"
    and b: "parse ''11.2.4'' = Inr \<lparr>major = 11, minor = 2, patch = 4, original = ''11.2.4''\<rparr>"
    and c: "parse ''10.2.0'' = Inr \<lparr>major = 10, minor = 2, patch = 0, original = ''10.2.0''\<rparr>"
    and d: "parse ''10.2.4'' = Inr \<lparr>major = 10, minor = 2, patch = 4, original = ''10.2.4''\<rparr>"
    by (simp_all add: parse_eval)
  show ?thesis
    using get_upgrade_path_empty_iff [OF a b] get_upgrade_path_empty_iff [OF c d]
    by (auto simp: version_ge_def version_lt_def version_eq_def)
qed

text \<open>
  Claim C4.  For every pair of parsable versions the planner returns a path whose
  elements all parse, and the current version followed by the parsed elements is
  strictly increasing: the first element exceeds the current version and each later
  element exceeds the one before it.
\<close>

theorem get_upgrade_path_increasing:
  assumes "parse current_version = Inr current" and "parse target_version = Inr target"
  shows "\<exists>path vs. get_upgrade_path current_version target_version = Inr path
           \<and> map parse path = map Inr vs \<and> increasing (current # vs)"
proof (cases "version_ge current target")
  case True
  then have "get_upgrade_path current_version target_version = Inr []"
    using assms by (simp add: get_upgrade_path_def)
  moreover have "map parse [] = map Inr ([]::Version list)" by simp
  ultimately show ?thesis by (intro exI[of _ "[]"]) simp
next
  case False
  from upgrade_loop_spec[of current target "[]"]
  obtain r vs where "upgrade_loop current target [] = Inr r" "map parse r = map Inr vs"
    "increasing (current # vs)" by auto
  then show ?thesis using assms False by (auto simp: get_upgrade_path_def)
qed

theorem get_upgrade_path_increasing_witness:
  "\<exists>path vs. get_upgrade_path ''9.1.0'' ''11.2.4'' = Inr path \<and> map parse path = map Inr vs
     \<and> increasing (\<lparr>major = 9, minor = 1, patch = 0, original = ''9.1.0''\<rparr> # vs)"
proof -
  have a: "parse ''9.1.0'' = Inr \<lparr>major = 9, minor = 1, patch = 0, original = ''9.1.0''\<rparr>"
    and b: "parse ''11.2.4'' = Inr \<lparr>major = 11, minor = 2, patch = 4, original = ''11.2.4''\<rparr>"
    by (simp_all add: parse_eval)
  show ?thesis by (rule get_upgrade_path_increasing [OF a b])
qed

subsection \<open>Parsing\<close>

lemma hotfix_here_iff:
  "hotfix_here s \<longleftrightarrow> (\<exists>ds. s = CHR ''-'' # CHR ''h'' # ds \<and> ds \<noteq> [] \<and> list_all isdigit ds)"
  by (cases s rule: hotfix_here.cases) auto

lemma dash_not_digit: "\<not> isdigit CHR ''-''" and h_not_digit: "\<not> isdigit CHR ''h''"
  by (simp_all add: isdigit_def)

lemma sub_hotfix_suffix:
  assumes "ds \<noteq> []" "list_all isdigit ds"
  shows "sub_hotfix (p @ CHR ''-'' # CHR ''h'' # ds) = p"
proof (induction p)
  case Nil
  then show ?case using assms by simp
next
  case (Cons c p)
  have "\<not> hotfix_here (c # p @ CHR ''-'' # CHR ''h'' # ds)"
  proof
    assume "hotfix_here (c # p @ CHR ''-'' # CHR ''h'' # ds)"
    then obtain es where es: "c # p @ CHR ''-'' # CHR ''h'' # ds = CHR ''-'' # CHR ''h'' # es"
      and d: "list_all isdigit es" by (auto simp: hotfix_here_iff)
    from es have "CHR ''-'' \<in> set es" by (cases p) auto
    with d show False by (auto simp: list_all_iff dash_not_digit)
  qed
  with Cons show ?case by simp
qed

lemma sub_hotfix_none:
  assumes "\<not> (\<exists>p ds. s = p @ CHR ''-'' # CHR ''h'' # ds \<and> ds \<noteq> [] \<and> list_all isdigit ds)"
  shows "sub_hotfix s = s"
  using assms
proof (induction s)
  case Nil
  then show ?case by simp
next
  case (Cons c cs)
  have a: "\<not> hotfix_here (c # cs)"
  proof
    assume "hotfix_here (c # cs)"
    then obtain ds where "c # cs = [] @ CHR ''-'' # CHR ''h'' # ds" "ds \<noteq> []" "list_all isdigit ds"
      by (auto simp: hotfix_here_iff)
    with Cons.prems show False by blast
  qed
  have "\<not> (\<exists>p ds. cs = p @ CHR ''-'' # CHR ''h'' # ds \<and> ds \<noteq> [] \<and> list_all isdigit ds)"
  proof
    assume "\<exists>p ds. cs = p @ CHR ''-'' # CHR ''h'' # ds \<and> ds \<noteq> [] \<and> list_all isdigit ds"
    then obtain p ds where "cs = p @ CHR ''-'' # CHR ''h'' # ds" "ds \<noteq> []" "list_all isdigit ds"
      by blast
    then have "c # cs = (c # p) @ CHR ''-'' # CHR ''h'' # ds" by simp
    with Cons.prems \<open>ds \<noteq> []\<close> \<open>list_all isdigit ds\<close> show False by blast
  qed
  with Cons.IH a show ?case by simp
qed

lemma strip_hotfix_suffix_suffix:
  assumes "ds \<noteq> []" "list_all isdigit ds"
  shows "strip_hotfix_suffix (p @ CHR ''-'' # CHR ''h'' # ds) = p"
proof -
  have r: "rev (p @ CHR ''-'' # CHR ''h'' # ds) = rev ds @ CHR ''h'' # CHR ''-'' # rev p" by simp
  have d: "list_all isdigit (rev ds)" using assms(2) by (simp add: list_all_iff)
  have t: "takeWhile isdigit (rev ds @ CHR ''h'' # CHR ''-'' # rev p) = rev ds"
    using d by (induction "rev ds" arbitrary: ds) (auto simp: h_not_digit list_all_iff takeWhile_append)
  have dr: "dropWhile isdigit (rev ds @ CHR ''h'' # CHR ''-'' # rev p) = CHR ''h'' # CHR ''-'' # rev p"
    using d by (auto simp: h_not_digit list_all_iff dropWhile_append)
  show ?thesis unfolding strip_hotfix_suffix_def r Let_def t dr using assms(1) by simp
qed

lemma strip_hotfix_suffix_none:
  assumes "\<not> (\<exists>p ds. s = p @ CHR ''-'' # CHR ''h'' # ds \<and> ds \<noteq> [] \<and> list_all isdigit ds)"
  shows "strip_hotfix_suffix s = s"
proof (rule ccontr)
  assume ne: "strip_hotfix_suffix s \<noteq> s"
  let ?ds = "takeWhile isdigit (rev s)" and ?r = "dropWhile isdigit (rev s)"
  from ne have a: "?ds \<noteq> []" and b: "take 2 ?r = ''h-''"
    by (auto simp: strip_hotfix_suffix_def Let_def split: if_splits)
  from b obtain q where q: "?r = CHR ''h'' # CHR ''-'' # q"
    by (cases ?r; cases "tl ?r") auto
  have "rev s = ?ds @ ?r" by simp
  then have "s = rev ?r @ rev ?ds" by (metis rev_append rev_rev_ident)
  then have "s = rev q @ CHR ''-'' # CHR ''h'' # rev ?ds" using q by simp
  moreover have "rev ?ds \<noteq> []" using a by simp
  moreover have "list_all isdigit (rev ?ds)"
    by (simp add: list_all_iff) (metis set_takeWhileD)
  ultimately show False using assms by blast
qed

lemma sub_hotfix_eq_spec: "sub_hotfix s = strip_hotfix_suffix s"
proof (cases "\<exists>p ds. s = p @ CHR ''-'' # CHR ''h'' # ds \<and> ds \<noteq> [] \<and> list_all isdigit ds")
  case True
  then show ?thesis by (auto simp: sub_hotfix_suffix strip_hotfix_suffix_suffix)
next
  case False
  then show ?thesis by (simp add: sub_hotfix_none strip_hotfix_suffix_none)
qed

lemma takeWhile_digits: "list_all isdigit (takeWhile isdigit s)"
  by (simp add: list_all_iff) (metis set_takeWhileD)

lemma dropWhile_digits_hd: "dropWhile isdigit s = [] \<or> \<not> isdigit (hd (dropWhile isdigit s))"
  by (metis hd_dropWhile)

lemma match_version_SomeD:
  assumes "match_version s = Some (a, b, c)"
  shows "\<exists>rest. s = a @ CHR ''.'' # b @ CHR ''.'' # c @ rest
           \<and> a \<noteq> [] \<and> list_all isdigit a \<and> b \<noteq> [] \<and> list_all isdigit b
           \<and> c \<noteq> [] \<and> list_all isdigit c \<and> (rest = [] \<or> \<not> isdigit (hd rest))"
proof -
  let ?g1 = "takeWhile isdigit s" and ?r1 = "dropWhile isdigit s"
  have g1: "?g1 \<noteq> []"
  proof
    assume "?g1 = []"
    then have "match_version s = None" by (simp add: match_version_def Let_def)
    with assms show False by simp
  qed
  obtain s2 where r1: "?r1 = CHR ''.'' # s2"
  proof (cases ?r1)
    case Nil
    have "match_version s = None" unfolding match_version_def Let_def Nil using g1 by simp
    with assms show ?thesis by simp
  next
    case (Cons d1 s2)
    show ?thesis
    proof (cases "d1 = CHR ''.''")
      case True
      with Cons that show ?thesis by simp
    next
      case False
      then have "match_version s = None" using g1 Cons by (simp add: match_version_def Let_def)
      with assms show ?thesis by simp
    qed
  qed
  let ?g2 = "takeWhile isdigit s2" and ?r2 = "dropWhile isdigit s2"
  have g2: "?g2 \<noteq> []"
  proof
    assume "?g2 = []"
    then have "match_version s = None" using g1 r1 by (simp add: match_version_def Let_def)
    with assms show False by simp
  qed
  obtain s3 where r2: "?r2 = CHR ''.'' # s3"
  proof (cases ?r2)
    case Nil
    have "match_version s = None" unfolding match_version_def Let_def r1 list.case Nil using g1 g2 by simp
    with assms show ?thesis by simp
  next
    case (Cons d2 s3)
    show ?thesis
    proof (cases "d2 = CHR ''.''")
      case True
      with Cons that show ?thesis by simp
    next
      case False
      then have "match_version s = None"
        using g1 r1 g2 Cons by (simp add: match_version_def Let_def)
      with assms show ?thesis by simp
    qed
  qed
  let ?g3 = "takeWhile isdigit s3"
  have g3: "?g3 \<noteq> []"
  proof
    assume "?g3 = []"
    then have "match_version s = None"
      using g1 r1 g2 r2 by (simp add: match_version_def Let_def)
    with assms show False by simp
  qed
  have "match_version s = Some (?g1, ?g2, ?g3)"
    using g1 r1 g2 r2 g3 by (simp add: match_version_def Let_def)
  with assms have res: "a = ?g1" "b = ?g2" "c = ?g3" by simp_all
  have "s = ?g1 @ ?r1" by simp
  also have "?r1 = CHR ''.'' # (?g2 @ ?r2)" using r1 by simp
  also have "?r2 = CHR ''.'' # (?g3 @ dropWhile isdigit s3)" using r2 by simp
  finally have dec: "s = a @ CHR ''.'' # b @ CHR ''.'' # c @ dropWhile isdigit s3"
    using res by simp
  have da: "list_all isdigit a" "list_all isdigit b" "list_all isdigit c"
    unfolding res by (rule takeWhile_digits)+
  have ne: "a \<noteq> []" "b \<noteq> []" "c \<noteq> []" using g1 g2 g3 res by simp_all
  show ?thesis
    using dec da ne dropWhile_digits_hd[of s3]
    by (intro exI[of _ "dropWhile isdigit s3"]) simp
qed

lemma match_version_prefix:
  assumes "a \<noteq> []" "list_all isdigit a" "b \<noteq> []" "list_all isdigit b"
    "c \<noteq> []" "list_all isdigit c"
  shows "match_version (a @ CHR ''.'' # b @ CHR ''.'' # c @ rest)
           = Some (a, b, c @ takeWhile isdigit rest)"
proof -
  have c: "takeWhile isdigit (c @ rest) = c @ takeWhile isdigit rest"
    using assms(6) by (simp add: takeWhile_append list_all_iff)
  show ?thesis
    using assms(1-5)
    by (simp add: match_version_def Let_def takeWhile_digits_dot dropWhile_digits_dot c)
qed

lemma match_version_None_iff:
  "match_version s = None \<longleftrightarrow>
     \<not> (\<exists>a b c rest. s = a @ ''.'' @ b @ ''.'' @ c @ rest
           \<and> a \<noteq> [] \<and> list_all isdigit a \<and> b \<noteq> [] \<and> list_all isdigit b
           \<and> c \<noteq> [] \<and> list_all isdigit c)"
proof
  assume n: "match_version s = None"
  show "\<not> (\<exists>a b c rest. s = a @ ''.'' @ b @ ''.'' @ c @ rest
           \<and> a \<noteq> [] \<and> list_all isdigit a \<and> b \<noteq> [] \<and> list_all isdigit b
           \<and> c \<noteq> [] \<and> list_all isdigit c)"
  proof
    assume "\<exists>a b c rest. s = a @ ''.'' @ b @ ''.'' @ c @ rest
           \<and> a \<noteq> [] \<and> list_all isdigit a \<and> b \<noteq> [] \<and> list_all isdigit b
           \<and> c \<noteq> [] \<and> list_all isdigit c"
    then obtain a b c rest where "s = a @ CHR ''.'' # b @ CHR ''.'' # c @ rest"
      "a \<noteq> []" "list_all isdigit a" "b \<noteq> []" "list_all isdigit b" "c \<noteq> []" "list_all isdigit c"
      by auto
    then show False using n match_version_prefix[of a b c rest] by simp
  qed
next
  assume h: "\<not> (\<exists>a b c rest. s = a @ ''.'' @ b @ ''.'' @ c @ rest
           \<and> a \<noteq> [] \<and> list_all isdigit a \<and> b \<noteq> [] \<and> list_all isdigit b
           \<and> c \<noteq> [] \<and> list_all isdigit c)"
  show "match_version s = None"
  proof (rule ccontr)
    assume "match_version s \<noteq> None"
    then obtain a b c where "match_version s = Some (a, b, c)" by auto
    from match_version_SomeD[OF this] h show False by auto
  qed
qed

text \<open>
  Claim C9.  \<open>Version.parse\<close> raises exactly when the input, after trimming whitespace
  and cutting one trailing \<open>-h\<close>digits suffix, does not begin with three runs of digits
  separated by dots; the only error is the invalid-format \<open>ValueError\<close>.  When the
  input does begin so, and the third run is not continued by a further digit, the
  result is the three numbers whatever follows them; so \<open>10.2.4beta\<close> parses to
  (10, 2, 4).
\<close>

theorem parse_invalid_iff:
  "((\<exists>e. parse s = Inl e) \<longleftrightarrow>
      \<not> (\<exists>a b c rest. strip_hotfix_suffix (strip s) = a @ ''.'' @ b @ ''.'' @ c @ rest
            \<and> a \<noteq> [] \<and> list_all isdigit a \<and> b \<noteq> [] \<and> list_all isdigit b
            \<and> c \<noteq> [] \<and> list_all isdigit c))
   \<and> (\<forall>e. parse s = Inl e \<longrightarrow> e = ValueError (''Invalid version format: '' @ s))
   \<and> (\<forall>a b c rest. strip_hotfix_suffix (strip s) = a @ ''.'' @ b @ ''.'' @ c @ rest
            \<and> a \<noteq> [] \<and> list_all isdigit a \<and> b \<noteq> [] \<and> list_all isdigit b
            \<and> c \<noteq> [] \<and> list_all isdigit c \<and> (rest = [] \<or> \<not> isdigit (hd rest))
         \<longrightarrow> parse s = Inr \<lparr>major = int_str a, minor = int_str b, patch = int_str c,
                             original = strip s\<rparr>)
   \<and> parse ''10.2.4beta'' =
       Inr \<lparr>major = 10, minor = 2, patch = 4, original = ''10.2.4beta''\<rparr>"
proof (intro conjI allI impI)
  have "(\<exists>e. parse s = Inl e) \<longleftrightarrow> match_version (sub_hotfix (strip s)) = None"
    by (auto simp: parse_def Let_def split: option.splits)
  then show "(\<exists>e. parse s = Inl e) \<longleftrightarrow>
      \<not> (\<exists>a b c rest. strip_hotfix_suffix (strip s) = a @ ''.'' @ b @ ''.'' @ c @ rest
            \<and> a \<noteq> [] \<and> list_all isdigit a \<and> b \<noteq> [] \<and> list_all isdigit b
            \<and> c \<noteq> [] \<and> list_all isdigit c)"
    by (simp only: match_version_None_iff sub_hotfix_eq_spec)
next
  fix e assume "parse s = Inl e"
  then show "e = ValueError (''Invalid version format: '' @ s)"
    by (auto simp: parse_def Let_def split: option.splits)
next
  fix a b c rest
  assume h: "strip_hotfix_suffix (strip s) = a @ ''.'' @ b @ ''.'' @ c @ rest
            \<and> a \<noteq> [] \<and> list_all isdigit a \<and> b \<noteq> [] \<and> list_all isdigit b
            \<and> c \<noteq> [] \<and> list_all isdigit c \<and> (rest = [] \<or> \<not> isdigit (hd rest))"
  then have t: "takeWhile isdigit rest = []" by (cases rest) auto
  from h have "match_version (sub_hotfix (strip s)) = Some (a, b, c)"
    using match_version_prefix[of a b c rest] by (simp add: sub_hotfix_eq_spec t)
  then show "parse s = Inr \<lparr>major = int_str a, minor = int_str b, patch = int_str c,
                             original = strip s\<rparr>"
    by (simp add: parse_def Let_def)
next
  show "parse ''10.2.4beta'' =
       Inr \<lparr>major = 10, minor = 2, patch = 4, original = ''10.2.4beta''\<rparr>"
    by (simp add: parse_eval)
qed

theorem parse_invalid_iff_witness:
  "(\<exists>e. parse ''10.2'' = Inl e) \<and> parse ''10.2'' = Inl (ValueError ''Invalid version format: 10.2'')
   \<and> parse '' 11.2.10-h2 '' =
       Inr \<lparr>major = 11, minor = 2, patch = 10, original = ''11.2.10-h2''\<rparr>"
proof -
  have a: "strip_hotfix_suffix (strip '' 11.2.10-h2 '') = ''11'' @ ''.'' @ ''2'' @ ''.'' @ ''10'' @ []"
    by (simp add: strip_hotfix_suffix_def strip_def isspace_def isdigit_def)
  have b: "parse ''10.2'' = Inl (ValueError ''Invalid version format: 10.2'')"
    by (simp add: parse_eval)
  have c: "list_all isdigit ''11''" "list_all isdigit ''2''" "list_all isdigit ''10''"
    by (simp_all add: isdigit_def)
  have d: "int_str ''11'' = 11" "int_str ''2'' = 2" "int_str ''10'' = 10"
    by (simp_all add: int_str_def)
  have e: "strip '' 11.2.10-h2 '' = ''11.2.10-h2''" by (simp add: strip_def isspace_def)
  from parse_invalid_iff [of "'' 11.2.10-h2 ''"] a c
  have "parse '' 11.2.10-h2 '' = Inr \<lparr>major = int_str ''11'', minor = int_str ''2'',
          patch = int_str ''10'', original = strip '' 11.2.10-h2 ''\<rparr>"
    by blast
  then show ?thesis using b parse_invalid_iff [of "''10.2''"] by (simp add: d e)
qed

section \<open>Properties of the upgrader and the orchestrator\<close>

lemmas device_eval = upgrader_connect_def client_connect_def ConnectHandler_def new_client_def
  get_current_version_def get_panos_version_def get_system_info_def send_command_def
  send_command_timing_def connection_send_def connection_disconnect_def socket_connect_ex_def
  client_disconnect_def upgrader_disconnect_def
  info_line_def newline_def lower_def lower_char_def isupper_def
  check_cancelled_def check_available_versions_def show_error_def log_error_def sleep_def

text \<open>
  Claim C2 at a concrete device.  The upgrader is connected, the installation job was
  accepted, the time limit is 60 seconds, and every poll returns the status
  \<open>installation failed\<close>.  The waiter does not raise the job-failed error at the first
  poll: the error it raises inside its \<open>try\<close> is caught by the handler of that same
  \<open>try\<close>, a second poll is sent, and the error that leaves the waiter is the time-out.
\<close>

theorem wait_for_software_install_swallows_failed:
  "wait_for_software_install env_install_failed \<lparr>client = Some \<lparr>connection = True\<rparr>\<rparr>
       ''11.2.4'' 60 (quiet_world\<lparr>live := 1\<rparr>) =
     (Inl (RuntimeError ''Installation of 11.2.4 timed out''),
      \<lparr>now = 60, sent = [''show jobs all'', ''show jobs all''], n_handshakes = 0,
         n_probes = 0, n_cancel_checks = 0, live = 1, reports = []\<rparr>)"
  by (simp add: wait_for_software_install_def install_poll.simps install_try_def
      install_status_def env_install_failed_def quiet_world_def device_eval)

text \<open>
  Claim C3 at a concrete device.  Phase 4 connects, reads version 10.2.0, plans the
  path to 10.2.4, and the availability check raises.  The phase reports the error and
  returns \<open>False\<close>, and the connection it opened is still open: no \<open>finally\<close>
  disconnects on this way out.
\<close>

theorem phase4_upgrade_leaves_session_open:
  "phase4_upgrade env_check_fails ''10.2.4'' quiet_world =
     Some (Inr False,
       \<lparr>now = 0, sent = [''show system info'', ''request system software check''],
          n_handshakes = 1, n_probes = 0, n_cancel_checks = 1, live = 1,
          reports = [ShowError ''PAN-OS Upgrade Failed'' (TransportError ''connection lost'')]\<rparr>)"
  by (simp add: phase4_upgrade_def phase4_try_def env_check_fails_def quiet_world_def
      device_eval strip_def isspace_def path_eval)

text \<open>
  Claim C10.  \<open>wait_for_reboot\<close> sleeps 60 seconds and then runs the SSH waiter with
  the time limit reduced by 60 and a poll interval of 30.  For a time limit of 60
  seconds or less the loop of the waiter is not entered: the result is \<open>False\<close>, and
  the world differs from the initial one only in the clock, so there was no TCP probe,
  no SSH handshake and no command.
\<close>

theorem wait_for_reboot_short_timeout:
  "wait_for_reboot E timeout w = wait_for_ssh E (timeout - 60) 30 (sleep 60 w) \<and>
   (timeout \<le> 60 \<longrightarrow>
      wait_for_reboot E timeout w = Some (False, w\<lparr>now := now w + 60\<rparr>) \<and>
      n_probes (w\<lparr>now := now w + 60\<rparr>) = n_probes w \<and>
      n_handshakes (w\<lparr>now := now w + 60\<rparr>) = n_handshakes w \<and>
      sent (w\<lparr>now := now w + 60\<rparr>) = sent w)"
  by (simp add: wait_for_reboot_def wait_for_ssh_def ssh_poll.simps sleep_def)

theorem wait_for_reboot_short_timeout_witness:
  "(60::int) \<le> 60 \<and>
   wait_for_reboot env_check_fails 60 quiet_world = Some (False, quiet_world\<lparr>now := 60\<rparr>)"
proof -
  have "(60::int) \<le> 60" by simp
  with wait_for_reboot_short_timeout [of env_check_fails 60 quiet_world]
  have "wait_for_reboot env_check_fails 60 quiet_world =
          Some (False, quiet_world\<lparr>now := now quiet_world + 60\<rparr>)"
    by blast
  then show ?thesis by (simp add: quiet_world_def)
qed

subsection \<open>Downloads\<close>

lemma send_command_sent:
  "connection c \<Longrightarrow> sent (snd (send_command E c command w)) = sent w @ [command]"
  by (simp add: send_command_def connection_send_def split: prod.splits)

lemma download_poll_sent:
  "connection c \<Longrightarrow>
   \<exists>n. sent (snd (download_poll E c version timeout start_time w)) =
          sent w @ replicate n ''request system software info''"
proof (induction E c version timeout start_time w rule: download_poll.induct)
  case (1 E c version timeout start_time w)
  let ?info = "''request system software info''"
  show ?case
  proof (cases "now w - start_time < timeout")
    case False
    then have "sent (snd (download_poll E c version timeout start_time w)) = sent w @ replicate 0 ?info"
      by (simp add: download_poll.simps)
    then show ?thesis by blast
  next
    case True
    obtain r w' where s: "send_command E c ?info (sleep 30 w) = (r, w')"
      by (cases "send_command E c ?info (sleep 30 w)")
    have sw: "sent w' = sent w @ [?info]"
      using send_command_sent[OF "1.prems", of E ?info "sleep 30 w"] s by (simp add: sleep_def)
    show ?thesis
    proof (cases r)
      case (Inl e)
      then have "sent (snd (download_poll E c version timeout start_time w)) = sent w @ replicate 1 ?info"
        using True s sw by (simp add: download_poll.simps)
      then show ?thesis by blast
    next
      case (Inr status)
      show ?thesis
      proof (cases "download_complete version status \<or> str_in ''failed'' (lower status)")
        case True
        then have "sent (snd (download_poll E c version timeout start_time w)) = sent w @ replicate 1 ?info"
          using \<open>now w - start_time < timeout\<close> s sw Inr by (auto simp: download_poll.simps)
        then show ?thesis by blast
      next
        case False
        then have nc: "\<not> download_complete version status" and nf: "\<not> str_in ''failed'' (lower status)"
          by simp_all
        from "1.IH"[OF True s[symmetric] Inr nc nf "1.prems"]
        obtain n where "sent (snd (download_poll E c version timeout start_time w')) = sent w' @ replicate n ?info"
          by blast
        then have "sent (snd (download_poll E c version timeout start_time w)) = sent w @ replicate (Suc n) ?info"
          using True s sw Inr nc nf by (simp add: download_poll.simps[of E c version timeout start_time w])
        then show ?thesis by blast
      qed
    qed
  qed
qed

lemma download_version_sent:
  assumes "client u = Some c" "connection c"
  shows "\<exists>n. sent (snd (download_version E u version timeout w)) =
           sent w @ (''request system software download version '' @ version)
                  # replicate n ''request system software info''"
proof -
  let ?cmd = "''request system software download version '' @ version"
  let ?info = "''request system software info''"
  obtain r w' where s: "send_command E c ?cmd w = (r, w')"
    by (cases "send_command E c ?cmd w")
  have sw: "sent w' = sent w @ [?cmd]"
    using send_command_sent[OF assms(2), of E ?cmd w] s by simp
  from download_poll_sent[OF assms(2), of E version timeout "now w'" w']
  obtain n where n: "sent (snd (download_poll E c version timeout (now w') w')) = sent w' @ replicate n ?info"
    by blast
  have "sent (snd (download_version E u version timeout w)) = sent w @ ?cmd # replicate n ?info
      \<or> sent (snd (download_version E u version timeout w)) = sent w @ ?cmd # replicate 0 ?info"
    using assms(1) s sw n
    by (auto simp: download_version_def wait_for_software_download_def split: sum.splits)
  then show ?thesis by blast
qed

text \<open>
  Claim C8.  On a connected upgrader and for a parsable version: when the patch number
  is not zero, \<open>download_software\<close> is the download of the base version X.Y.0 with half
  the time limit (integer division by 2), followed, when that returns, by the download
  of the requested version with the full limit; the first command sent is the download
  request for X.Y.0, and all that the preliminary download sends after it are status
  polls.  When the patch number is zero, \<open>download_software\<close> is the download of the
  requested version alone: its first command is the request for that version and all
  others are status polls.
\<close>

theorem download_software_base_first:
  assumes "client u = Some c" and "connection c" and "parse version = Inr ver"
  shows "(patch ver \<noteq> 0 \<longrightarrow>
            download_software E u version timeout w =
              (case download_version E u (base_version ver) (timeout div 2) w of
                 (Inl e, w') \<Rightarrow> (Inl e, w')
               | (Inr ok, w') \<Rightarrow> download_version E u version timeout w')
            \<and> base_version ver = str_nat (major ver) @ ''.'' @ str_nat (minor ver) @ ''.0''
            \<and> (\<exists>n. sent (snd (download_version E u (base_version ver) (timeout div 2) w)) =
                     sent w @ (''request system software download version '' @ base_version ver)
                            # replicate n ''request system software info''))
       \<and> (patch ver = 0 \<longrightarrow>
            download_software E u version timeout w = download_version E u version timeout w
            \<and> (\<exists>n. sent (snd (download_software E u version timeout w)) =
                     sent w @ (''request system software download version '' @ version)
                            # replicate n ''request system software info''))"
proof (intro conjI impI)
  assume p: "patch ver \<noteq> 0"
  show "download_software E u version timeout w =
              (case download_version E u (base_version ver) (timeout div 2) w of
                 (Inl e, w') \<Rightarrow> (Inl e, w')
               | (Inr ok, w') \<Rightarrow> download_version E u version timeout w')"
    using assms(1,3) p by (simp add: download_software_def)
  show "base_version ver = str_nat (major ver) @ ''.'' @ str_nat (minor ver) @ ''.0''"
    by (simp add: base_version_def)
  show "\<exists>n. sent (snd (download_version E u (base_version ver) (timeout div 2) w)) =
                     sent w @ (''request system software download version '' @ base_version ver)
                            # replicate n ''request system software info''"
    using assms(1,2) by (rule download_version_sent)
next
  assume p: "patch ver = 0"
  show eq: "download_software E u version timeout w = download_version E u version timeout w"
    using assms(1,3) p by (simp add: download_software_def)
  show "\<exists>n. sent (snd (download_software E u version timeout w)) =
                     sent w @ (''request system software download version '' @ version)
                            # replicate n ''request system software info''"
    unfolding eq using assms(1,2) by (rule download_version_sent)
qed

theorem download_software_base_first_witness:
  "download_software env_already_downloaded \<lparr>client = Some \<lparr>connection = True\<rparr>\<rparr> ''10.2.4'' 1801
       quiet_world =
     (Inr (), quiet_world\<lparr>sent := [''request system software download version 10.2.0'',
                                     ''request system software download version 10.2.4'']\<rparr>)
   \<and> download_software env_already_downloaded \<lparr>client = Some \<lparr>connection = True\<rparr>\<rparr> ''10.2.0'' 1801
       quiet_world =
     (Inr (), quiet_world\<lparr>sent := [''request system software download version 10.2.0'']\<rparr>)"
proof -
  let ?u = "\<lparr>client = Some \<lparr>connection = True\<rparr>\<rparr>"
  have c: "client ?u = Some \<lparr>connection = True\<rparr>" "connection \<lparr>connection = True\<rparr>" by simp_all
  have a: "parse ''10.2.4'' = Inr \<lparr>major = 10, minor = 2, patch = 4, original = ''10.2.4''\<rparr>"
    and b: "parse ''10.2.0'' = Inr \<lparr>major = 10, minor = 2, patch = 0, original = ''10.2.0''\<rparr>"
    by (simp_all add: parse_eval)
  have bv: "base_version \<lparr>major = 10, minor = 2, patch = 4, original = ''10.2.4''\<rparr> = ''10.2.0''"
    by (simp add: base_version_def str_nat.simps digit_char_def)
  have v: "download_version env_already_downloaded ?u version timeout quiet_world =
             (Inr (), quiet_world\<lparr>sent := [''request system software download version '' @ version]\<rparr>)"
    "download_version env_already_downloaded ?u version timeout
         (quiet_world\<lparr>sent := [''request system software download version 10.2.0'']\<rparr>) =
             (Inr (), quiet_world\<lparr>sent := [''request system software download version 10.2.0'',
                                            ''request system software download version '' @ version]\<rparr>)"
    for version timeout
    by (simp_all add: download_version_def env_already_downloaded_def quiet_world_def device_eval)
  show ?thesis
    using download_software_base_first [OF c a, of env_already_downloaded 1801 quiet_world]
      download_software_base_first [OF c b, of env_already_downloaded 1801 quiet_world]
    by (simp add: bv v)
qed

subsection \<open>The SSH waiter\<close>

lemmas ssh_attempt_eval = ssh_attempt_def socket_connect_ex_def client_connect_def
  ConnectHandler_def new_client_def send_command_timing_def connection_send_def
  client_disconnect_def connection_disconnect_def

lemma ssh_attempt_succeeds: "fst (ssh_attempt E w) = attempt_succeeds E w"
proof -
  obtain d1 r1 where p: "tcp_probes E (n_probes w) = (d1, r1)"
    by (cases "tcp_probes E (n_probes w)")
  obtain d2 r2 where h: "handshakes E (n_handshakes w) = (d2, r2)"
    by (cases "handshakes E (n_handshakes w)")
  obtain d3 r3 where c: "commands E (length (sent w)) = (d3, r3)"
    by (cases "commands E (length (sent w))")
  show ?thesis
    by (cases r1; cases r2; cases r3) (simp_all add: ssh_attempt_eval attempt_succeeds_def p h c)
qed

lemma ssh_attempt_now: "now w \<le> now (snd (ssh_attempt E w))"
proof -
  obtain d1 r1 where p: "tcp_probes E (n_probes w) = (d1, r1)"
    by (cases "tcp_probes E (n_probes w)")
  obtain d2 r2 where h: "handshakes E (n_handshakes w) = (d2, r2)"
    by (cases "handshakes E (n_handshakes w)")
  obtain d3 r3 where c: "commands E (length (sent w)) = (d3, r3)"
    by (cases "commands E (length (sent w))")
  show ?thesis
    by (cases r1; cases r2; cases r3) (simp_all add: ssh_attempt_eval p h c)
qed

lemma attempt_start_shift:
  "attempt_start E p w (Suc k) = attempt_start E p (sleep p (snd (ssh_attempt E w))) k"
  by (induction k) simp_all

lemma first_success_0:
  "now w - start_time < timeout \<Longrightarrow> attempt_succeeds E w \<Longrightarrow> first_success E timeout p start_time w 0"
  by (simp add: first_success_def)

lemma timed_out_0: "timeout \<le> now w - start_time \<Longrightarrow> timed_out E timeout p start_time w 0"
  by (simp add: timed_out_def)

lemma first_success_Suc:
  assumes "now w - start_time < timeout" "\<not> attempt_succeeds E w"
    and "first_success E timeout p start_time (sleep p (snd (ssh_attempt E w))) k"
  shows "first_success E timeout p start_time w (Suc k)"
  unfolding first_success_def
proof (intro conjI allI impI)
  fix j assume j: "j < Suc k"
  show "now (attempt_start E p w j) - start_time < timeout"
  proof (cases j)
    case 0 then show ?thesis using assms(1) by simp
  next
    case (Suc i)
    then have "i < k" using j by simp
    then show ?thesis using assms(3) Suc
      by (simp add: attempt_start_shift first_success_def del: attempt_start.simps(2))
  qed
  show "\<not> attempt_succeeds E (attempt_start E p w j)"
  proof (cases j)
    case 0 then show ?thesis using assms(2) by simp
  next
    case (Suc i)
    then have "i < k" using j by simp
    then show ?thesis using assms(3) Suc
      by (simp add: attempt_start_shift first_success_def del: attempt_start.simps(2))
  qed
next
  show "now (attempt_start E p w (Suc k)) - start_time < timeout"
    using assms(3) by (simp add: attempt_start_shift first_success_def del: attempt_start.simps(2))
  show "attempt_succeeds E (attempt_start E p w (Suc k))"
    using assms(3) by (simp add: attempt_start_shift first_success_def del: attempt_start.simps(2))
qed

lemma timed_out_Suc:
  assumes "now w - start_time < timeout" "\<not> attempt_succeeds E w"
    and "timed_out E timeout p start_time (sleep p (snd (ssh_attempt E w))) k"
  shows "timed_out E timeout p start_time w (Suc k)"
  unfolding timed_out_def
proof (intro conjI allI impI)
  fix j assume j: "j < Suc k"
  show "now (attempt_start E p w j) - start_time < timeout"
  proof (cases j)
    case 0 then show ?thesis using assms(1) by simp
  next
    case (Suc i)
    then have "i < k" using j by simp
    then show ?thesis using assms(3) Suc
      by (simp add: attempt_start_shift timed_out_def del: attempt_start.simps(2))
  qed
  show "\<not> attempt_succeeds E (attempt_start E p w j)"
  proof (cases j)
    case 0 then show ?thesis using assms(2) by simp
  next
    case (Suc i)
    then have "i < k" using j by simp
    then show ?thesis using assms(3) Suc
      by (simp add: attempt_start_shift timed_out_def del: attempt_start.simps(2))
  qed
next
  show "timeout \<le> now (attempt_start E p w (Suc k)) - start_time"
    using assms(3) by (simp add: attempt_start_shift timed_out_def del: attempt_start.simps(2))
qed

lemma not_both:
  assumes "first_success E timeout p start_time w k1" "timed_out E timeout p start_time w k2"
  shows False
proof -
  consider "k1 < k2" | "k2 < k1" | "k1 = k2" by linarith
  then show False
  proof cases
    case 1
    then have "\<not> attempt_succeeds E (attempt_start E p w k1)"
      using assms(2) by (simp add: timed_out_def)
    then show False using assms(1) by (simp add: first_success_def)
  next
    case 2
    then have "now (attempt_start E p w k2) - start_time < timeout"
      using assms(1) by (simp add: first_success_def)
    then show False using assms(2) by (simp add: timed_out_def)
  next
    case 3
    then show False using assms by (simp add: first_success_def timed_out_def)
  qed
qed

lemma ssh_post_timeout:
  "timeout \<le> now w - start_time \<Longrightarrow> ssh_post E timeout p start_time w False w"
  unfolding ssh_post_def by (simp only: if_False) (rule exI[of _ 0], simp add: timed_out_0)

lemma ssh_post_success:
  "now w - start_time < timeout \<Longrightarrow> attempt_succeeds E w
     \<Longrightarrow> ssh_post E timeout p start_time w True (snd (ssh_attempt E w))"
  unfolding ssh_post_def by (simp only: if_True) (rule exI[of _ 0], simp add: first_success_0)

lemma ssh_post_step:
  assumes "now w - start_time < timeout" "\<not> attempt_succeeds E w"
    and "ssh_post E timeout p start_time (sleep p (snd (ssh_attempt E w))) b w'"
  shows "ssh_post E timeout p start_time w b w'"
proof (cases b)
  case True
  with assms(3) obtain k where
    k: "first_success E timeout p start_time (sleep p (snd (ssh_attempt E w))) k"
    and w': "w' = snd (ssh_attempt E (attempt_start E p (sleep p (snd (ssh_attempt E w))) k))"
    unfolding ssh_post_def by auto
  have "first_success E timeout p start_time w (Suc k)"
    using assms(1,2) k by (rule first_success_Suc)
  moreover have "w' = snd (ssh_attempt E (attempt_start E p w (Suc k)))"
    using w' by (simp only: attempt_start_shift)
  ultimately have "\<exists>k. first_success E timeout p start_time w k
                    \<and> w' = snd (ssh_attempt E (attempt_start E p w k))" by blast
  then show ?thesis unfolding ssh_post_def using True by (simp only: if_True)
next
  case False
  with assms(3) obtain k where
    k: "timed_out E timeout p start_time (sleep p (snd (ssh_attempt E w))) k"
    and w': "w' = attempt_start E p (sleep p (snd (ssh_attempt E w))) k"
    unfolding ssh_post_def by auto
  have "timed_out E timeout p start_time w (Suc k)"
    using assms(1,2) k by (rule timed_out_Suc)
  moreover have "w' = attempt_start E p w (Suc k)"
    using w' by (simp only: attempt_start_shift)
  ultimately have "\<exists>k. timed_out E timeout p start_time w k \<and> w' = attempt_start E p w k"
    by blast
  then show ?thesis unfolding ssh_post_def using False by (simp only: if_False)
qed

lemma ssh_poll_run:
  assumes "0 < p"
  shows "\<exists>b w'. ssh_poll E timeout p start_time w = Some (b, w')
           \<and> ssh_post E timeout p start_time w b w'"
proof (induction "nat (timeout - (now w - start_time))" arbitrary: w rule: less_induct)
  case less
  show ?case
  proof (cases "now w - start_time < timeout")
    case False
    then have "ssh_poll E timeout p start_time w = Some (False, w)"
      by (subst ssh_poll.simps) simp
    moreover have "ssh_post E timeout p start_time w False w"
      using False by (intro ssh_post_timeout) simp
    ultimately show ?thesis by blast
  next
    case True
    obtain ok w1 where a: "ssh_attempt E w = (ok, w1)" by (cases "ssh_attempt E w")
    have oks: "ok = attempt_succeeds E w" using ssh_attempt_succeeds[of E w] a by simp
    have w1: "w1 = snd (ssh_attempt E w)" using a by simp
    show ?thesis
    proof (cases ok)
      case True
      then have "ssh_poll E timeout p start_time w = Some (True, w1)"
        using \<open>now w - start_time < timeout\<close> a by (subst ssh_poll.simps) simp
      moreover have "ssh_post E timeout p start_time w True w1"
        unfolding w1 using \<open>now w - start_time < timeout\<close> True oks by (intro ssh_post_success) simp_all
      ultimately show ?thesis by blast
    next
      case False
      let ?w2 = "sleep p w1"
      have "now w \<le> now w1" using ssh_attempt_now[of w E] a by simp
      then have "now w < now ?w2" using assms by (simp add: sleep_def)
      then have "nat (timeout - (now ?w2 - start_time)) < nat (timeout - (now w - start_time))"
        using True by simp
      from less[OF this] obtain b w' where
        r: "ssh_poll E timeout p start_time ?w2 = Some (b, w')"
        and s: "ssh_post E timeout p start_time ?w2 b w'"
        by blast
      have e: "ssh_poll E timeout p start_time w = Some (b, w')"
        using True a False r by (subst ssh_poll.simps) simp
      have na: "\<not> attempt_succeeds E w" using False oks by simp
      have "ssh_post E timeout p start_time w b w'"
        using \<open>now w - start_time < timeout\<close> na s unfolding w1 by (rule ssh_post_step)
      with e show ?thesis by blast
    qed
  qed
qed

text \<open>
  Claim C7.  With a positive poll interval the waiter always returns a boolean: no
  failure of the TCP probe, of the SSH handshake or of the liveness command leaves it
  as an exception, each failed round is followed by a sleep and the next round.  It
  returns \<open>True\<close> exactly when some round, reached within the time limit after
  failed rounds only, fully succeeds, and then it returns at the end of that first
  successful round; it returns \<open>False\<close> exactly when the time limit has elapsed at
  the start of a round with every earlier round failed, and then nothing further was
  done.
\<close>

theorem wait_for_ssh_result:
  assumes "0 < poll_interval"
  shows "\<exists>b w'. wait_for_ssh E timeout poll_interval w = Some (b, w')
           \<and> (b \<longleftrightarrow> (\<exists>k. first_success E timeout poll_interval (now w) w k))
           \<and> (\<not> b \<longleftrightarrow> (\<exists>k. timed_out E timeout poll_interval (now w) w k))
           \<and> (b \<longrightarrow> (\<exists>k. first_success E timeout poll_interval (now w) w k
                        \<and> w' = snd (ssh_attempt E (attempt_start E poll_interval w k))))
           \<and> (\<not> b \<longrightarrow> (\<exists>k. timed_out E timeout poll_interval (now w) w k
                          \<and> w' = attempt_start E poll_interval w k))"
proof -
  from ssh_poll_run[OF assms, of E timeout "now w" w] obtain b w' where
    r: "ssh_poll E timeout poll_interval (now w) w = Some (b, w')"
    and s: "ssh_post E timeout poll_interval (now w) w b w'" by blast
  have 1: "b \<longleftrightarrow> (\<exists>k. first_success E timeout poll_interval (now w) w k)"
    using s not_both unfolding ssh_post_def by (cases b) auto
  have 2: "\<not> b \<longleftrightarrow> (\<exists>k. timed_out E timeout poll_interval (now w) w k)"
    using s not_both unfolding ssh_post_def by (cases b) auto
  have 3: "b \<longrightarrow> (\<exists>k. first_success E timeout poll_interval (now w) w k
                        \<and> w' = snd (ssh_attempt E (attempt_start E poll_interval w k)))"
    using s unfolding ssh_post_def by simp
  have 4: "\<not> b \<longrightarrow> (\<exists>k. timed_out E timeout poll_interval (now w) w k
                          \<and> w' = attempt_start E poll_interval w k)"
    using s unfolding ssh_post_def by simp
  have "wait_for_ssh E timeout poll_interval w = Some (b, w')"
    using r by (simp add: wait_for_ssh_def)
  with 1 2 3 4 show ?thesis by blast
qed

theorem wait_for_ssh_result_witness:
  "(0::nat) < 30 \<and>
   wait_for_ssh env_second_try 100 30 quiet_world =
     Some (True, \<lparr>now = 43, sent = [''show clock''], n_handshakes = 1, n_probes = 2,
                   n_cancel_checks = 0, live = 0, reports = []\<rparr>) \<and>
   (\<exists>k. first_success env_second_try 100 30 0 quiet_world k)"
proof -
  have p: "(0::nat) < 30" by simp
  have e: "wait_for_ssh env_second_try 100 30 quiet_world =
     Some (True, \<lparr>now = 43, sent = [''show clock''], n_handshakes = 1, n_probes = 2,
                   n_cancel_checks = 0, live = 0, reports = []\<rparr>)"
    by (simp add: wait_for_ssh_def ssh_poll.simps ssh_attempt_eval env_second_try_def
        quiet_world_def sleep_def)
  have n: "now quiet_world = 0" by (simp add: quiet_world_def)
  from wait_for_ssh_result [OF p, of env_second_try 100 quiet_world] e
  have "\<exists>k. first_success env_second_try 100 30 (now quiet_world) quiet_world k" by auto
  then show ?thesis using e by (simp add: n)
qed

end
